theory Spec2Isabelle
  imports Main "HOL-Library.AList"
begin

section \<open>Text helpers\<close>

text \<open>
  Python strings are modelled as \<open>string\<close> (lists of 8-bit characters); the model reads
  them as ASCII text. \<open>is_space\<close> is the ASCII part of what \<open>\s\<close> and \<open>str.strip()\<close>
  treat as whitespace in Python 3 (code points 9-13 and 28-32).
\<close>

definition is_space :: "char \<Rightarrow> bool" where
  "is_space c = (let n = (of_char c :: nat) in (9 \<le> n \<and> n \<le> 13) \<or> (28 \<le> n \<and> n \<le> 32))"

definition is_upper :: "char \<Rightarrow> bool" where
  "is_upper c = (let n = (of_char c :: nat) in 65 \<le> n \<and> n \<le> 90)"

definition is_lower_alnum :: "char \<Rightarrow> bool" where
  "is_lower_alnum c = (let n = (of_char c :: nat) in (97 \<le> n \<and> n \<le> 122) \<or> (48 \<le> n \<and> n \<le> 57))"

definition is_word :: "char \<Rightarrow> bool" where
  "is_word c = (let n = (of_char c :: nat) in
     (97 \<le> n \<and> n \<le> 122) \<or> (65 \<le> n \<and> n \<le> 90) \<or> (48 \<le> n \<and> n \<le> 57) \<or> n = 95)"

definition lower_char :: "char \<Rightarrow> char" where
  "lower_char c = (if is_upper c then char_of ((of_char c :: nat) + 32) else c)"

definition lower :: "string \<Rightarrow> string" where
  "lower s = map lower_char s"

definition strip :: "string \<Rightarrow> string" where
  "strip s = rev (dropWhile is_space (rev (dropWhile is_space s)))"

text \<open>
  \<open>sub_runs p False s\<close> is \<open>re.sub(r"<class>+", " ", s)\<close> for the character class \<open>p\<close>:
  every maximal run of characters of the class becomes one blank. The flag records that
  the scan is inside a run whose blank has been emitted already.
\<close>

fun sub_runs :: "(char \<Rightarrow> bool) \<Rightarrow> bool \<Rightarrow> string \<Rightarrow> string" where
  "sub_runs p in_run [] = []"
| "sub_runs p in_run (c # cs) =
     (if p c then (if in_run then sub_runs p True cs else CHR '' '' # sub_runs p True cs)
      else c # sub_runs p False cs)"

definition normalize_text :: "string \<Rightarrow> string" where
  "normalize_text s = strip (sub_runs is_space False s)"

definition norm_title_key :: "string \<Rightarrow> string" where
  "norm_title_key title0 =
     (let t = lower (normalize_text title0);
          t = sub_runs (\<lambda>c. \<not> is_lower_alnum c) False t;
          t = strip (sub_runs is_space False t)
      in t)"

text \<open>Decimal rendering of an integer, as \<open>str\<close> does inside an f-string.\<close>

fun digits :: "nat \<Rightarrow> string" where
  "digits n = (if n < 10 then [char_of (48 + n)] else digits (n div 10) @ [char_of (48 + n mod 10)])"

definition str_int :: "int \<Rightarrow> string" where
  "str_int i = (if i < 0 then CHR ''-'' # digits (nat (- i)) else digits (nat i))"

fun join :: "string \<Rightarrow> string list \<Rightarrow> string" where
  "join sep [] = []"
| "join sep [x] = x"
| "join sep (x # y # ys) = x @ sep @ join sep (y # ys)"

section \<open>Canonical records\<close>

text \<open>
  A record is the dictionary built by \<open>norm_record\<close>, with the keys later stages add
  (absent until then, hence optional). \<open>year\<close> is an integer or the empty string, which
  is \<open>None\<close> here. \<open>extra\<close> is a small dictionary of snippets.
\<close>

record rec =
  source :: string
  rec_id :: string
  title :: string
  authors :: "string list"
  year :: "int option"
  doi :: string
  url :: string
  venue :: string
  extra :: "(string \<times> string) list"
  match_mv :: "bool option"
  match_weaning :: "bool option"
  match_rl :: "bool option"
  auto_exclude_reason :: "string option"
  abstract :: "string option"
  match_mv_abs :: "bool option"
  match_wean_abs :: "bool option"
  match_rl_abs :: "bool option"
  decision :: "string option"

datatype error = ValueError | TypeError

section \<open>Deduplication\<close>

definition SOURCE_PRIORITY :: "string list" where
  "SOURCE_PRIORITY = [''web_of_science'', ''scopus'', ''openalex'', ''semantic_scholar'',
     ''google_scholar'', ''arxiv'', ''pubmed'']"

text \<open>\<open>list.index\<close>: the first position of the value, or ValueError.\<close>

fun index_of :: "'a list \<Rightarrow> 'a \<Rightarrow> error + nat" where
  "index_of [] x = Inl ValueError"
| "index_of (y # ys) x =
     (if y = x then Inr 0 else (case index_of ys x of Inl e \<Rightarrow> Inl e | Inr n \<Rightarrow> Inr (Suc n)))"

definition better_record :: "rec \<Rightarrow> rec \<Rightarrow> error + rec" where
  "better_record a b =
     (if doi a \<noteq> [] \<and> \<not> doi b \<noteq> [] then Inr a
      else if doi b \<noteq> [] \<and> \<not> doi a \<noteq> [] then Inr b
      else if length (title a) > length (title b) then Inr a
      else if length (title b) > length (title a) then Inr b
      else (case index_of SOURCE_PRIORITY (source a) of
              Inl e \<Rightarrow> Inl e
            | Inr ia \<Rightarrow> (case index_of SOURCE_PRIORITY (source b) of
                 Inl e \<Rightarrow> Inl e
               | Inr ib \<Rightarrow> (if ia < ib then Inr a else Inr a))))"

text \<open>
  The identity key of a record, as the loop of \<open>deduplicate\<close> derives it: the lower-cased
  DOI (looked up in \<open>by_doi\<close>), else the normalised title with \<open>|year\<close> appended when the
  year is truthy (looked up in \<open>by_title\<close>), else none.
\<close>

datatype ident = DoiKey string | TitleKey string | NoKey

definition identity_key :: "rec \<Rightarrow> ident" where
  "identity_key r =
     (let d = lower (doi r) in
      if d \<noteq> [] then DoiKey d
      else (let key = norm_title_key (title r) in
        if key = [] then NoKey
        else (case year r of
                None \<Rightarrow> TitleKey key
              | Some y \<Rightarrow> if y \<noteq> 0 then TitleKey (key @ ''|'' @ str_int y) else TitleKey key)))"

text \<open>
  The two dictionaries keep insertion order, and assigning to a key that is present keeps
  its position: that is \<open>AList.update\<close> on an association list.
\<close>

record dedup_state =
  by_doi :: "(string \<times> rec) list"
  by_title :: "(string \<times> rec) list"
  kept :: "rec list"

definition merge_into :: "(string \<times> rec) list \<Rightarrow> string \<Rightarrow> rec \<Rightarrow> error + (string \<times> rec) list" where
  "merge_into d k r =
     (case map_of d k of
        Some old \<Rightarrow> (case better_record old r of
                       Inl e \<Rightarrow> Inl e
                     | Inr best \<Rightarrow> Inr (AList.update k best d))
      | None \<Rightarrow> Inr (AList.update k r d))"

definition dedup_step :: "dedup_state \<Rightarrow> rec \<Rightarrow> error + dedup_state" where
  "dedup_step st r =
     (case identity_key r of
        DoiKey d \<Rightarrow> (case merge_into (by_doi st) d r of
                       Inl e \<Rightarrow> Inl e
                     | Inr m \<Rightarrow> Inr (st\<lparr>by_doi := m\<rparr>))
      | NoKey \<Rightarrow> Inr (st\<lparr>kept := kept st @ [r]\<rparr>)
      | TitleKey k \<Rightarrow> (case merge_into (by_title st) k r of
                       Inl e \<Rightarrow> Inl e
                     | Inr m \<Rightarrow> Inr (st\<lparr>by_title := m\<rparr>)))"

fun dedup_loop :: "dedup_state \<Rightarrow> rec list \<Rightarrow> error + dedup_state" where
  "dedup_loop st [] = Inr st"
| "dedup_loop st (r # rs) =
     (case dedup_step st r of Inl e \<Rightarrow> Inl e | Inr st' \<Rightarrow> dedup_loop st' rs)"

definition deduplicate :: "rec list \<Rightarrow> error + rec list" where
  "deduplicate records =
     (case dedup_loop \<lparr>by_doi = [], by_title = [], kept = []\<rparr> records of
        Inl e \<Rightarrow> Inl e
      | Inr st \<Rightarrow> Inr (kept st @ map snd (by_doi st) @ map snd (by_title st)))"

text \<open>
  Invariants of the loop, used by the proofs below. \<open>keyed_by K seen d\<close>: the dictionary
  \<open>d\<close> has one entry per key of kind \<open>K\<close> among the records seen so far, and the value
  stored under a key is one of those records and carries that key.
\<close>

definition keyed_by :: "(string \<Rightarrow> ident) \<Rightarrow> rec list \<Rightarrow> (string \<times> rec) list \<Rightarrow> bool" where
  "keyed_by K seen d \<longleftrightarrow>
     distinct (map fst d) \<and>
     (\<forall>p \<in> set d. identity_key (snd p) = K (fst p) \<and> snd p \<in> set seen) \<and>
     fst ` set d = {k. \<exists>r \<in> set seen. identity_key r = K k}"

definition dedup_inv :: "rec list \<Rightarrow> dedup_state \<Rightarrow> bool" where
  "dedup_inv seen st \<longleftrightarrow>
     keyed_by DoiKey seen (by_doi st) \<and> keyed_by TitleKey seen (by_title st) \<and>
     kept st = filter (\<lambda>r. identity_key r = NoKey) seen \<and>
     length (kept st) + length (by_doi st) + length (by_title st) \<le> length seen"

section \<open>Evidence matcher\<close>

text \<open>
  The two tuning knobs of the scripts, threaded through as a value.
\<close>

record config =
  STRICT_REQUIRE_RL :: bool
  CASE_SENSITIVE :: bool

definition backslash :: char where
  "backslash = CHR 0x5C"

definition RL_TERMS :: "string list" where
  "RL_TERMS = [''reinforcement learning'', backslash # ''bMDP'' @ backslash # ''b'',
     ''markov decision'', backslash # ''bQ-?learning'' @ backslash # ''b'',
     ''fitted q'', ''policy gradient'', ''actor-critic'', ''offline reinforcement'',
     ''deep reinforcement'', ''inverse reinforcement'']"

definition MV_TERMS :: "string list" where
  "MV_TERMS = [''mechanical ventilation'', ''ventilator'', ''ventilatory support'',
     ''ventilation'', ''ventilated'', ''patient-ventilator'']"

definition WEAN_TERMS :: "string list" where
  "WEAN_TERMS = [''wean'', ''weaning'', ''extubat'', ''ventilator liberation'',
     ''spontaneous breathing trial'', ''sbt'', ''liberation'']"

text \<open>
  Compiled patterns. The term lists use a small part of the regular-expression syntax:
  literal characters, escaped characters, \<open>\b\<close> and \<open>c?\<close>; \<open>re_parse\<close> reads exactly that.
\<close>

datatype atom = Lit char | Opt char | WordB

datatype rx = Rx bool "atom list"

fun re_parse :: "string \<Rightarrow> atom list" where
  "re_parse [] = []"
| "re_parse [c] = [Lit c]"
| "re_parse (c # d # cs) =
     (if c = backslash then (if d = CHR ''b'' then WordB # re_parse cs else Lit d # re_parse cs)
      else if d = CHR ''?'' then Opt c # re_parse cs
      else Lit c # re_parse (d # cs))"

definition re_special :: string where
  "re_special = ''()[]{}?*+-|^$'' @ [backslash] @ ''.&~# '' @ [CHR 0x09, CHR 0x0A, CHR 0x0D, CHR 0x0B, CHR 0x0C]"

definition re_escape :: "string \<Rightarrow> string" where
  "re_escape t = concat (map (\<lambda>c. if c \<in> set re_special then [backslash, c] else [c]) t)"

definition startswith :: "string \<Rightarrow> string \<Rightarrow> bool" where
  "startswith s p = (take (length p) s = p)"

fun contains :: "string \<Rightarrow> string \<Rightarrow> bool" where
  "contains [] sub = (sub = [])"
| "contains (c # cs) sub = (startswith (c # cs) sub \<or> contains cs sub)"

definition char_eq :: "bool \<Rightarrow> char \<Rightarrow> char \<Rightarrow> bool" where
  "char_eq ignorecase c d = (if ignorecase then lower_char c = lower_char d else c = d)"

definition at_boundary :: "char option \<Rightarrow> string \<Rightarrow> bool" where
  "at_boundary prev s =
     ((case prev of None \<Rightarrow> False | Some c \<Rightarrow> is_word c) \<noteq>
      (case s of [] \<Rightarrow> False | d # ds \<Rightarrow> is_word d))"

fun match_here :: "bool \<Rightarrow> atom list \<Rightarrow> char option \<Rightarrow> string \<Rightarrow> bool" where
  "match_here ic [] prev s = True"
| "match_here ic (Lit c # as) prev [] = False"
| "match_here ic (Lit c # as) prev (d # ds) = (char_eq ic c d \<and> match_here ic as (Some d) ds)"
| "match_here ic (Opt c # as) prev [] = match_here ic as prev []"
| "match_here ic (Opt c # as) prev (d # ds) =
     ((char_eq ic c d \<and> match_here ic as (Some d) ds) \<or> match_here ic as prev (d # ds))"
| "match_here ic (WordB # as) prev s = (at_boundary prev s \<and> match_here ic as prev s)"

fun search_from :: "bool \<Rightarrow> atom list \<Rightarrow> char option \<Rightarrow> string \<Rightarrow> bool" where
  "search_from ic as prev [] = match_here ic as prev []"
| "search_from ic as prev (d # ds) = (match_here ic as prev (d # ds) \<or> search_from ic as (Some d) ds)"

fun rx_search :: "rx \<Rightarrow> string \<Rightarrow> bool" where
  "rx_search (Rx ic as) text = search_from ic as None text"

definition compile_terms :: "config \<Rightarrow> string list \<Rightarrow> rx list" where
  "compile_terms cfg terms =
     map (\<lambda>t. Rx (\<not> CASE_SENSITIVE cfg)
            (re_parse (if startswith t (backslash # ''b'') \<or> CHR ''['' \<in> set t \<or> CHR ''*'' \<in> set t
                          \<or> CHR '' '' \<in> set t then t else re_escape t))) terms"

definition RL_RX :: "config \<Rightarrow> rx list" where
  "RL_RX cfg = compile_terms cfg RL_TERMS"

definition MV_RX :: "config \<Rightarrow> rx list" where
  "MV_RX cfg = compile_terms cfg MV_TERMS"

definition WEAN_RX :: "config \<Rightarrow> rx list" where
  "WEAN_RX cfg = compile_terms cfg WEAN_TERMS"

definition matches_any :: "rx list \<Rightarrow> string \<Rightarrow> bool" where
  "matches_any rx_list text = list_ex (\<lambda>r. rx_search r text) rx_list"

section \<open>Stage 1: title-level screen\<close>

definition dict_get :: "(string \<times> 'v) list \<Rightarrow> string \<Rightarrow> 'v \<Rightarrow> 'v" where
  "dict_get d k dflt = (case map_of d k of None \<Rightarrow> dflt | Some v \<Rightarrow> v)"

definition text_blob :: "rec \<Rightarrow> string" where
  "text_blob r =
     (let parts = [title r, venue r, dict_get (extra r) ''snippet'' [], dict_get (extra r) ''pub_summary'' []]
      in join '' '' (filter (\<lambda>p. p \<noteq> []) parts))"

definition filter_step :: "config \<Rightarrow> rec list \<times> rec list \<Rightarrow> rec \<Rightarrow> rec list \<times> rec list" where
  "filter_step cfg acc r =
     (let blob = text_blob r;
          has_mv = matches_any (MV_RX cfg) blob;
          has_wean = matches_any (WEAN_RX cfg) blob;
          has_rl = matches_any (RL_RX cfg) blob
      in if has_mv \<and> has_wean \<and> (has_rl \<or> \<not> STRICT_REQUIRE_RL cfg)
         then (fst acc @ [r\<lparr>match_mv := Some has_mv, match_weaning := Some has_wean,
                              match_rl := Some has_rl\<rparr>], snd acc)
         else (let reason = (if \<not> has_mv then [''no_mv''] else [])
                          @ (if \<not> has_wean then [''no_weaning''] else [])
                          @ (if STRICT_REQUIRE_RL cfg \<and> \<not> has_rl then [''no_rl''] else [])
               in (fst acc, snd acc @ [r\<lparr>auto_exclude_reason :=
                      Some (if reason \<noteq> [] then join '','' reason else ''no_match'')\<rparr>])))"

definition apply_filters :: "config \<Rightarrow> rec list \<Rightarrow> rec list \<times> rec list" where
  "apply_filters cfg records = foldl (filter_step cfg) ([], []) records"

section \<open>Stage 2: abstract-level screen\<close>

text \<open>
  \<open>str.split(sep)\<close> for a non-empty separator; \<open>cur\<close> is the piece being read.
\<close>

fun split_acc :: "string \<Rightarrow> string \<Rightarrow> string \<Rightarrow> string list" where
  "split_acc sep cur [] = [cur]"
| "split_acc sep cur (c # cs) =
     (if startswith (c # cs) sep then cur # split_acc sep [] (drop (length sep - 1) cs)
      else split_acc sep (cur @ [c]) cs)"

definition split :: "string \<Rightarrow> string \<Rightarrow> string list" where
  "split s sep = split_acc sep [] s"

text \<open>
  What the external lookups returned: the dictionaries \<open>pmid_to_abs\<close>, \<open>s2_map\<close> (here
  the \<open>abstract\<close> field of each object, \<open>None\<close> when it is missing or null),
  \<open>openalex_map\<close> and \<open>arxiv_map\<close>. Network failures only make them smaller.
\<close>

record providers =
  pmid_to_abs :: "(string \<times> string) list"
  s2_map :: "(string \<times> string option) list"
  openalex_map :: "(string \<times> string) list"
  arxiv_map :: "(string \<times> string) list"

definition s2_abstract :: "providers \<Rightarrow> string \<Rightarrow> string" where
  "s2_abstract pv k = (case map_of (s2_map pv) k of Some (Some a) \<Rightarrow> a | _ \<Rightarrow> [])"

text \<open>
  The provider chain of the evaluation loop (the same statements in \<open>abstract_stage\<close> and
  in the rescreen script): the first non-empty text wins.
\<close>

definition lookup_abstract :: "providers \<Rightarrow> rec \<Rightarrow> string" where
  "lookup_abstract pv r =
     (let src = lower (source r);
          rid = rec_id r;
          doi1 = strip (doi r);
          url1 = url r;
          a0 = (if src = ''pubmed'' \<and> startswith rid ''PMID:''
                then dict_get (pmid_to_abs pv) (split rid ''PMID:'' ! 1) [] else []);
          a1 = (if a0 = [] \<and> doi1 \<noteq> [] \<and> s2_abstract pv (''DOI:'' @ doi1) \<noteq> []
                then s2_abstract pv (''DOI:'' @ doi1) else a0);
          a2 = (if a1 = [] \<and> src = ''pubmed'' \<and> startswith rid ''PMID:''
                  \<and> s2_abstract pv (''PMID:'' @ split rid ''PMID:'' ! 1) \<noteq> []
                then s2_abstract pv (''PMID:'' @ split rid ''PMID:'' ! 1) else a1);
          a3 = (if a2 = [] \<and> (src = ''openalex'' \<or> contains rid ''openalex.org'')
                then dict_get (openalex_map pv) (last (split rid ''/'')) [] else a2);
          a4 = (if a3 = [] \<and> (src = ''arxiv'' \<or> contains url1 ''arxiv.org/abs/'')
                then (if dict_get (arxiv_map pv) url1 [] \<noteq> [] then dict_get (arxiv_map pv) url1 []
                      else dict_get (arxiv_map pv) rid [])
                else a3)
      in a4)"

definition abs_clean_of :: "providers \<Rightarrow> rec \<Rightarrow> string" where
  "abs_clean_of pv r = strip (sub_runs is_space False (lookup_abstract pv r))"

definition abs_meta :: string where
  "abs_meta = backslash # ''[]()|?*+{}''"

definition abs_compile_terms :: "string list \<Rightarrow> rx list" where
  "abs_compile_terms terms =
     map (\<lambda>t. if list_ex (\<lambda>ch. ch \<in> set t) abs_meta \<or> CHR '' '' \<in> set t
               then Rx True (re_parse t) else Rx True (re_parse (re_escape t))) terms"

definition ABS_RL_RX :: "rx list" where
  "ABS_RL_RX = abs_compile_terms RL_TERMS"

definition ABS_MV_RX :: "rx list" where
  "ABS_MV_RX = abs_compile_terms MV_TERMS"

definition ABS_WEAN_RX :: "rx list" where
  "ABS_WEAN_RX = abs_compile_terms WEAN_TERMS"

definition abs_matches_any :: "rx list \<Rightarrow> string \<Rightarrow> bool" where
  "abs_matches_any rx_list text = (if text = [] then False else list_ex (\<lambda>r. rx_search r text) rx_list)"

record abs_state =
  keepers :: "rec list"
  dropped :: "rec list"
  checked :: int
  kept_cnt :: int
  dropped_cnt :: int
  noabs :: int

definition abstract_step :: "providers \<Rightarrow> abs_state \<Rightarrow> rec \<Rightarrow> abs_state" where
  "abstract_step pv st r =
     (let st = st\<lparr>checked := checked st + 1\<rparr>;
          abs_clean = abs_clean_of pv r;
          mv = abs_matches_any ABS_MV_RX abs_clean;
          rl = abs_matches_any ABS_RL_RX abs_clean;
          wean = abs_matches_any ABS_WEAN_RX abs_clean
      in if abs_clean = [] then
           st\<lparr>keepers := keepers st @ [r\<lparr>abstract := Some [], match_mv_abs := Some False,
                  match_wean_abs := Some False, match_rl_abs := Some False,
                  decision := Some ''keep_no_abstract''\<rparr>],
              kept_cnt := kept_cnt st + 1, noabs := noabs st + 1\<rparr>
         else if mv \<and> rl then
           st\<lparr>keepers := keepers st @ [r\<lparr>abstract := Some abs_clean, match_mv_abs := Some mv,
                  match_wean_abs := Some wean, match_rl_abs := Some rl,
                  decision := Some ''keep''\<rparr>],
              kept_cnt := kept_cnt st + 1\<rparr>
         else
           st\<lparr>dropped := dropped st @ [r\<lparr>abstract := Some abs_clean, match_mv_abs := Some mv,
                  match_wean_abs := Some wean, match_rl_abs := Some rl,
                  decision := Some ''drop_by_abstract''\<rparr>],
              dropped_cnt := dropped_cnt st + 1\<rparr>)"

definition abstract_stage :: "providers \<Rightarrow> rec list \<Rightarrow> rec list \<times> rec list \<times> (string \<times> int) list" where
  "abstract_stage pv screened_rows =
     (let st = foldl (abstract_step pv)
                 \<lparr>keepers = [], dropped = [], checked = 0, kept_cnt = 0, dropped_cnt = 0, noabs = 0\<rparr>
                 screened_rows
      in (keepers st, dropped st,
          [(''checked'', checked st), (''kept'', kept_cnt st),
           (''dropped_by_abstract'', dropped_cnt st), (''no_abstract'', noabs st)]))"

text \<open>The record \<open>abstract_stage\<close> emits for one input row, whichever list it goes to.\<close>

definition stage2_row :: "providers \<Rightarrow> rec \<Rightarrow> rec" where
  "stage2_row pv r =
     (let st = abstract_step pv
                 \<lparr>keepers = [], dropped = [], checked = 0, kept_cnt = 0, dropped_cnt = 0, noabs = 0\<rparr> r
      in hd (keepers st @ dropped st))"

section \<open>Rescue pass over the excluded records\<close>

definition rescreen_compile_terms :: "config \<Rightarrow> string list \<Rightarrow> rx list" where
  "rescreen_compile_terms cfg terms =
     map (\<lambda>t. if list_ex (\<lambda>ch. ch \<in> set t) abs_meta \<or> CHR '' '' \<in> set t
               then Rx (\<not> CASE_SENSITIVE cfg) (re_parse t)
               else Rx (\<not> CASE_SENSITIVE cfg) (re_parse (re_escape t))) terms"

definition rescreen_matches_any :: "rx list \<Rightarrow> string \<Rightarrow> bool" where
  "rescreen_matches_any rx_list text = (if text = [] then False else list_ex (\<lambda>r. rx_search r text) rx_list)"

record rescreen_state =
  out_rows :: "rec list"
  rescued :: int
  confirmed :: int
  noabs_rescreen :: int

definition rescreen_step :: "config \<Rightarrow> providers \<Rightarrow> rescreen_state \<Rightarrow> rec \<Rightarrow> rescreen_state" where
  "rescreen_step cfg pv st r =
     (let abs_clean = abs_clean_of pv r;
          mv = rescreen_matches_any (rescreen_compile_terms cfg MV_TERMS) abs_clean;
          wean = rescreen_matches_any (rescreen_compile_terms cfg WEAN_TERMS) abs_clean;
          rl = rescreen_matches_any (rescreen_compile_terms cfg RL_TERMS) abs_clean;
          (decision1, st) =
            (if abs_clean \<noteq> [] then
               (if mv \<and> wean \<and> (rl \<or> \<not> STRICT_REQUIRE_RL cfg)
                then (''rescue'', st\<lparr>rescued := rescued st + 1\<rparr>)
                else (''confirmed_exclude'', st\<lparr>confirmed := confirmed st + 1\<rparr>))
             else (''keep_no_abstract'', st\<lparr>noabs_rescreen := noabs_rescreen st + 1\<rparr>))
      in st\<lparr>out_rows := out_rows st @ [r\<lparr>abstract := Some abs_clean, match_mv_abs := Some mv,
                match_wean_abs := Some wean, match_rl_abs := Some rl,
                decision := Some decision1\<rparr>]\<rparr>)"

definition rescreen_eval :: "config \<Rightarrow> providers \<Rightarrow> rec list \<Rightarrow> rescreen_state" where
  "rescreen_eval cfg pv rows =
     foldl (rescreen_step cfg pv) \<lparr>out_rows = [], rescued = 0, confirmed = 0, noabs_rescreen = 0\<rparr> rows"

definition rescreen_keepers :: "config \<Rightarrow> providers \<Rightarrow> rec list \<Rightarrow> rec list" where
  "rescreen_keepers cfg pv rows =
     filter (\<lambda>r. decision r \<noteq> Some ''confirmed_exclude'') (out_rows (rescreen_eval cfg pv rows))"

section \<open>PRISMA counts\<close>

text \<open>
  The count object is a JSON dictionary; \<open>jval\<close> has the kinds of value the scripts
  store in it: integers, a boolean, lists of strings and nested dictionaries.
\<close>

datatype jval = JInt int | JBool bool | JStrs "string list" | JObj "(string \<times> jval) list"

type_synonym prisma = "(string \<times> jval) list"

text \<open>\<open>int(x)\<close> on a value read from the JSON file.\<close>

fun py_int :: "jval \<Rightarrow> error + int" where
  "py_int (JInt i) = Inr i"
| "py_int (JBool b) = Inr (if b then 1 else 0)"
| "py_int (JStrs xs) = Inl TypeError"
| "py_int (JObj kv) = Inl TypeError"

definition counts_obj :: "(string \<times> int) list \<Rightarrow> jval" where
  "counts_obj kv = JObj (map (\<lambda>(k, v). (k, JInt v)) kv)"

text \<open>
  The count object \<open>main\<close> of the filter script writes, from the lists it computed: the
  stage-1 totals, then the stage-2 counts and the derived screen-in total.
\<close>

definition filter_prisma :: "config \<Rightarrow> providers \<Rightarrow> rec list \<Rightarrow> rec list \<Rightarrow> rec list \<Rightarrow> rec list \<Rightarrow> prisma" where
  "filter_prisma cfg pv all_records dedup screened_in screened_out =
     (let prisma = [(''identified_raw_total'', JInt (int (length all_records))),
                    (''after_dedup'', JInt (int (length dedup))),
                    (''auto_screen_in'', JInt (int (length screened_in))),
                    (''auto_screen_out'', JInt (int (length screened_out))),
                    (''notes'', JObj [(''strict_require_rl'', JBool (STRICT_REQUIRE_RL cfg)),
                                     (''mv_terms'', JStrs MV_TERMS),
                                     (''weaning_terms'', JStrs WEAN_TERMS),
                                     (''rl_terms'', JStrs RL_TERMS)])]
      in if screened_in \<noteq> [] then
           (let abs_counts = snd (snd (abstract_stage pv screened_in));
                prisma = AList.update ''abstract_stage'' (counts_obj abs_counts) prisma
            in AList.update ''auto_screen_in_after_abstract''
                 (JInt (int (length screened_in) - dict_get abs_counts ''dropped_by_abstract'' 0)) prisma)
         else
           (let prisma = AList.update ''abstract_stage''
                  (counts_obj [(''checked'', 0), (''kept'', 0), (''dropped_by_abstract'', 0),
                               (''no_abstract'', 0)]) prisma
            in AList.update ''auto_screen_in_after_abstract'' (JInt 0) prisma))"

text \<open>
  \<open>main\<close> of the filter script on the normalised records: what it writes as screened
  candidates, as excluded records and as count object.
\<close>

definition filter_main :: "config \<Rightarrow> providers \<Rightarrow> rec list \<Rightarrow> error + (rec list \<times> rec list \<times> prisma)" where
  "filter_main cfg pv all_records =
     (case deduplicate all_records of
        Inl e \<Rightarrow> Inl e
      | Inr dedup \<Rightarrow>
          (let (screened_in, screened_out) = apply_filters cfg dedup
           in Inr (screened_in, screened_out,
                   filter_prisma cfg pv all_records dedup screened_in screened_out)))"

text \<open>
  The update of the count object at the end of the rescreen script. \<open>prisma\<close> is what
  was read from the file (the empty dictionary when the file is missing or unreadable).
\<close>

definition rescreen_prisma :: "prisma \<Rightarrow> rescreen_state \<Rightarrow> error + prisma" where
  "rescreen_prisma prisma st =
     (let abstract_rescreen = counts_obj [(''checked'', int (length (out_rows st))),
                                         (''rescued'', rescued st),
                                         (''no_abstract'', noabs_rescreen st)]
      in case py_int (dict_get prisma ''auto_screen_in'' (JInt 0)) of
           Inl e \<Rightarrow> Inl e
         | Inr old_in \<Rightarrow>
            (case py_int (dict_get prisma ''auto_screen_out'' (JInt 0)) of
               Inl e \<Rightarrow> Inl e
             | Inr old_out \<Rightarrow>
                (let prisma = AList.update ''abstract_rescreen'' abstract_rescreen prisma;
                     prisma = AList.update ''auto_screen_in_after_abstract'' (JInt (old_in + rescued st)) prisma;
                     prisma = AList.update ''auto_screen_out_after_abstract''
                                (JInt (max 0 (old_out - rescued st))) prisma
                 in Inr prisma)))"

definition rescreen_main :: "config \<Rightarrow> providers \<Rightarrow> prisma \<Rightarrow> rec list \<Rightarrow> rec list \<times> (error + prisma)" where
  "rescreen_main cfg pv prisma rows =
     (rescreen_keepers cfg pv rows, rescreen_prisma prisma (rescreen_eval cfg pv rows))"

section \<open>The loops, row by row\<close>

text \<open>
  The match flags the stage-1 loop computes for a record, and those the rescreen loop
  computes for a cleaned abstract, as functions; and the row each abstract loop emits for
  one input row (the single element its body appends).
\<close>

definition has_mv :: "config \<Rightarrow> rec \<Rightarrow> bool" where
  "has_mv cfg r = matches_any (MV_RX cfg) (text_blob r)"

definition has_wean :: "config \<Rightarrow> rec \<Rightarrow> bool" where
  "has_wean cfg r = matches_any (WEAN_RX cfg) (text_blob r)"

definition has_rl :: "config \<Rightarrow> rec \<Rightarrow> bool" where
  "has_rl cfg r = matches_any (RL_RX cfg) (text_blob r)"

definition rescue_mv :: "config \<Rightarrow> string \<Rightarrow> bool" where
  "rescue_mv cfg a = rescreen_matches_any (rescreen_compile_terms cfg MV_TERMS) a"

definition rescue_wean :: "config \<Rightarrow> string \<Rightarrow> bool" where
  "rescue_wean cfg a = rescreen_matches_any (rescreen_compile_terms cfg WEAN_TERMS) a"

definition rescue_rl :: "config \<Rightarrow> string \<Rightarrow> bool" where
  "rescue_rl cfg a = rescreen_matches_any (rescreen_compile_terms cfg RL_TERMS) a"

definition rescreen_row :: "config \<Rightarrow> providers \<Rightarrow> rec \<Rightarrow> rec" where
  "rescreen_row cfg pv r =
     hd (out_rows (rescreen_step cfg pv
           \<lparr>out_rows = [], rescued = 0, confirmed = 0, noabs_rescreen = 0\<rparr> r))"


section \<open>The decision rules in the words of the specification\<close>

text \<open>
  These definitions follow the specification, not the code; the theorems below compare
  the functions above with them. \<open>mark_in\<close> and \<open>mark_out\<close> are a record with the
  stage-1 annotations of a screened-in and of a screened-out record.
\<close>

definition spec_screened_in :: "config \<Rightarrow> rec \<Rightarrow> bool" where
  "spec_screened_in cfg r = (has_mv cfg r \<and> has_wean cfg r \<and> (has_rl cfg r \<or> \<not> STRICT_REQUIRE_RL cfg))"

definition spec_reason_codes :: "config \<Rightarrow> rec \<Rightarrow> string list" where
  "spec_reason_codes cfg r =
     map snd (filter fst [(\<not> has_mv cfg r, ''no_mv''), (\<not> has_wean cfg r, ''no_weaning''),
                          (STRICT_REQUIRE_RL cfg \<and> \<not> has_rl cfg r, ''no_rl'')])"

definition spec_reason :: "config \<Rightarrow> rec \<Rightarrow> string" where
  "spec_reason cfg r =
     (if spec_reason_codes cfg r = [] then ''no_match'' else join '','' (spec_reason_codes cfg r))"

definition mark_in :: "config \<Rightarrow> rec \<Rightarrow> rec" where
  "mark_in cfg r = r\<lparr>match_mv := Some (has_mv cfg r), match_weaning := Some (has_wean cfg r),
                      match_rl := Some (has_rl cfg r)\<rparr>"

definition mark_out :: "config \<Rightarrow> rec \<Rightarrow> rec" where
  "mark_out cfg r = r\<lparr>auto_exclude_reason := Some (spec_reason cfg r)\<rparr>"

definition spec_stage2_decision :: "string \<Rightarrow> string" where
  "spec_stage2_decision a =
     (if a = [] then ''keep_no_abstract''
      else if abs_matches_any ABS_MV_RX a \<and> abs_matches_any ABS_RL_RX a then ''keep''
      else ''drop_by_abstract'')"

definition spec_rescue_decision :: "config \<Rightarrow> string \<Rightarrow> string" where
  "spec_rescue_decision cfg a =
     (if a = [] then ''keep_no_abstract''
      else if rescue_mv cfg a \<and> rescue_wean cfg a \<and> (rescue_rl cfg a \<or> \<not> STRICT_REQUIRE_RL cfg)
      then ''rescue'' else ''confirmed_exclude'')"


section \<open>Example data\<close>

text \<open>
  The two settings of the strict switch, a record with every field empty, and the records
  and lookup results the examples below run on.
\<close>

definition cfg_default :: config where
  "cfg_default = \<lparr>STRICT_REQUIRE_RL = False, CASE_SENSITIVE = False\<rparr>"

definition cfg_strict :: config where
  "cfg_strict = \<lparr>STRICT_REQUIRE_RL = True, CASE_SENSITIVE = False\<rparr>"

definition empty_record :: rec where
  "empty_record = \<lparr>source = [], rec_id = [], title = [], authors = [], year = None, doi = [],
     url = [], venue = [], extra = [], match_mv = None, match_weaning = None, match_rl = None,
     auto_exclude_reason = None, abstract = None, match_mv_abs = None, match_wean_abs = None,
     match_rl_abs = None, decision = None\<rparr>"

definition ex_scopus :: rec where
  "ex_scopus = empty_record\<lparr>source := ''scopus'', rec_id := ''SCOPUS_ID:1'',
     title := ''Weaning'', year := Some 2020, doi := ''10.1/AB''\<rparr>"

definition ex_s2 :: rec where
  "ex_s2 = empty_record\<lparr>source := ''semantic_scholar'', rec_id := ''S2:7'',
     title := ''Weaning from ventilators'', doi := ''10.1/ab''\<rparr>"

definition ex_wos :: rec where
  "ex_wos = empty_record\<lparr>source := ''web_of_science'', rec_id := ''WOS:1'',
     title := ''Weaning from Ventilators'', doi := ''10.1/ab''\<rparr>"

definition ex_arxiv :: rec where
  "ex_arxiv = empty_record\<lparr>source := ''arxiv'', rec_id := ''http://arxiv.org/abs/1'',
     title := ''RL  for SBT!'', year := Some 2021, url := ''http://arxiv.org/abs/1''\<rparr>"

definition ex_bare :: rec where
  "ex_bare = empty_record\<lparr>source := ''pubmed'', rec_id := ''PMID:9''\<rparr>"

definition ex_title_hit :: rec where
  "ex_title_hit = empty_record\<lparr>source := ''openalex'', rec_id := ''https://openalex.org/W1'',
     title := ''RL-based ventilator weaning protocol'', doi := ''10.2/cd''\<rparr>"

definition ex_off_topic :: rec where
  "ex_off_topic = empty_record\<lparr>source := ''scopus'', rec_id := ''SCOPUS_ID:2'',
     title := ''Sepsis care'', doi := ''10.3/ef''\<rparr>"

definition ex_rl_title :: rec where
  "ex_rl_title = empty_record\<lparr>source := ''scopus'', rec_id := ''SCOPUS_ID:3'',
     title := ''Q-learning for ventilator weaning''\<rparr>"

definition ex_providers :: providers where
  "ex_providers = \<lparr>pmid_to_abs = [],
     s2_map = [(''DOI:10.2/cd'', Some ''ventilator   Q-learning''),
               (''DOI:10.3/ef'', Some ''ventilator weaning'')],
     openalex_map = [], arxiv_map = []\<rparr>"

definition ex_providers_no_rl :: providers where
  "ex_providers_no_rl = \<lparr>pmid_to_abs = [],
     s2_map = [(''DOI:10.2/cd'', Some ''ventilator weaning''),
               (''DOI:10.3/ef'', Some ''ventilator weaning'')],
     openalex_map = [], arxiv_map = []\<rparr>"


section \<open>Properties of the merge\<close>

lemma index_of_mem: "x \<in> set xs \<Longrightarrow> \<exists>n. index_of xs x = Inr n"
  by (induction xs) (auto split: sum.splits)

lemma better_record_picks: "better_record a b = Inr c \<Longrightarrow> c = a \<or> c = b"
  unfolding better_record_def by (auto split: if_splits sum.splits)

lemma better_record_returns:
  assumes "source a \<in> set SOURCE_PRIORITY" "source b \<in> set SOURCE_PRIORITY"
  shows "\<exists>c. better_record a b = Inr c"
proof -
  from index_of_mem[OF assms(1)] obtain ia where "index_of SOURCE_PRIORITY (source a) = Inr ia"
    by blast
  moreover from index_of_mem[OF assms(2)] obtain ib where "index_of SOURCE_PRIORITY (source b) = Inr ib"
    by blast
  ultimately show ?thesis unfolding better_record_def by simp
qed

lemma keyed_by_mono:
  assumes "keyed_by K seen d" "\<forall>k. identity_key r \<noteq> K k"
  shows "keyed_by K (seen @ [r]) d"
  using assms unfolding keyed_by_def by (auto; blast)

lemma set_update_subset: "set (AList.update k v d) \<subseteq> insert (k, v) (set d)"
  by (induction d) auto

lemma update_fresh: "k \<notin> fst ` set d \<Longrightarrow> AList.update k v d = d @ [(k, v)]"
  by (induction d) auto

lemma length_update_present: "k \<in> fst ` set d \<Longrightarrow> length (AList.update k v d) = length d"
  by (induction d) auto

lemma merge_into_returns:
  assumes kb: "keyed_by K seen d"
    and src: "source r \<in> set SOURCE_PRIORITY" "\<forall>x \<in> set seen. source x \<in> set SOURCE_PRIORITY"
  shows "\<exists>m. merge_into d k r = Inr m"
proof (cases "map_of d k")
  case None
  then show ?thesis by (simp add: merge_into_def)
next
  case (Some old)
  then have "(k, old) \<in> set d" by (rule map_of_SomeD)
  then have "old \<in> set seen" using kb unfolding keyed_by_def by force
  with src have "source old \<in> set SOURCE_PRIORITY" by blast
  from better_record_returns[OF this src(1)] show ?thesis
    by (auto simp: merge_into_def Some)
qed

lemma keyed_by_merge:
  assumes kb: "keyed_by K seen d" and key: "identity_key r = K k" and inj: "inj K"
    and res: "merge_into d k r = Inr m"
  shows "keyed_by K (seen @ [r]) m \<and>
     length m = (if k \<in> fst ` set d then length d else Suc (length d))"
proof -
  have dist: "distinct (map fst d)"
    and vals: "\<And>k' v. (k', v) \<in> set d \<Longrightarrow> identity_key v = K k' \<and> v \<in> set seen"
    and keys: "fst ` set d = {k. \<exists>r \<in> set seen. identity_key r = K k}"
    using kb unfolding keyed_by_def by force+
  have keys': "{k'. \<exists>x \<in> set (seen @ [r]). identity_key x = K k'} = {k} \<union> fst ` set d"
    using key inj keys by (auto dest: injD)
  have step: "keyed_by K (seen @ [r]) (AList.update k best d)"
    if best: "identity_key best = K k" "best \<in> set (seen @ [r])" for best
  proof -
    have "\<forall>p \<in> set (AList.update k best d).
            identity_key (snd p) = K (fst p) \<and> snd p \<in> set (seen @ [r])"
      using set_update_subset[of k best d] vals best by auto
    then show ?thesis
      unfolding keyed_by_def using dist keys' by (simp add: distinct_update dom_update)
  qed
  show ?thesis
  proof (cases "map_of d k")
    case None
    then have fresh: "k \<notin> fst ` set d" by (simp add: map_of_eq_None_iff)
    have "m = AList.update k r d"
      using res by (simp add: merge_into_def None)
    moreover have "length (AList.update k r d) = Suc (length d)"
      by (simp add: update_fresh[OF fresh])
    ultimately show ?thesis using step[of r] key fresh by simp
  next
    case (Some old)
    then have mem: "(k, old) \<in> set d" by (rule map_of_SomeD)
    then have present: "k \<in> fst ` set d" by force
    from vals[OF mem] have old: "identity_key old = K k" "old \<in> set seen" by auto
    from res obtain best where b: "better_record old r = Inr best" "m = AList.update k best d"
      by (auto simp: merge_into_def Some split: sum.splits)
    from better_record_picks[OF b(1)] have "identity_key best = K k" "best \<in> set (seen @ [r])"
      using old key by auto
    then show ?thesis
      using step[of best] length_update_present[OF present] present b(2) by simp
  qed
qed

lemma dedup_inv_init: "dedup_inv [] \<lparr>by_doi = [], by_title = [], kept = []\<rparr>"
  by (simp add: dedup_inv_def keyed_by_def)

lemma dedup_step_returns:
  assumes inv: "dedup_inv seen st"
    and src: "source r \<in> set SOURCE_PRIORITY" "\<forall>x \<in> set seen. source x \<in> set SOURCE_PRIORITY"
  shows "\<exists>st'. dedup_step st r = Inr st'"
proof (cases "identity_key r")
  case (DoiKey d)
  from inv have "keyed_by DoiKey seen (by_doi st)" by (simp add: dedup_inv_def)
  from merge_into_returns[OF this src, of d] show ?thesis
    by (auto simp: dedup_step_def DoiKey)
next
  case (TitleKey k)
  from inv have "keyed_by TitleKey seen (by_title st)" by (simp add: dedup_inv_def)
  from merge_into_returns[OF this src, of k] show ?thesis
    by (auto simp: dedup_step_def TitleKey)
next
  case NoKey
  then show ?thesis by (simp add: dedup_step_def)
qed

lemma dedup_step_inv:
  assumes inv: "dedup_inv seen st" and res: "dedup_step st r = Inr st'"
  shows "dedup_inv (seen @ [r]) st'"
proof (cases "identity_key r")
  case (DoiKey d)
  from res obtain m where m: "merge_into (by_doi st) d r = Inr m" "st' = st\<lparr>by_doi := m\<rparr>"
    by (auto simp: dedup_step_def DoiKey split: sum.splits)
  have "inj DoiKey" by (simp add: inj_on_def)
  from keyed_by_merge[OF _ DoiKey this m(1), of seen] inv
  have "keyed_by DoiKey (seen @ [r]) m" "length m \<le> Suc (length (by_doi st))"
    unfolding dedup_inv_def by (auto split: if_splits)
  moreover have "keyed_by TitleKey (seen @ [r]) (by_title st)"
    using inv DoiKey by (intro keyed_by_mono) (auto simp: dedup_inv_def)
  ultimately show ?thesis
    using m(2) inv DoiKey by (auto simp: dedup_inv_def)
next
  case (TitleKey k)
  from res obtain m where m: "merge_into (by_title st) k r = Inr m" "st' = st\<lparr>by_title := m\<rparr>"
    by (auto simp: dedup_step_def TitleKey split: sum.splits)
  have "inj TitleKey" by (simp add: inj_on_def)
  from keyed_by_merge[OF _ TitleKey this m(1), of seen] inv
  have "keyed_by TitleKey (seen @ [r]) m" "length m \<le> Suc (length (by_title st))"
    unfolding dedup_inv_def by (auto split: if_splits)
  moreover have "keyed_by DoiKey (seen @ [r]) (by_doi st)"
    using inv TitleKey by (intro keyed_by_mono) (auto simp: dedup_inv_def)
  ultimately show ?thesis
    using m(2) inv TitleKey by (auto simp: dedup_inv_def)
next
  case NoKey
  have "keyed_by DoiKey (seen @ [r]) (by_doi st)" "keyed_by TitleKey (seen @ [r]) (by_title st)"
    using inv NoKey by (auto intro!: keyed_by_mono simp: dedup_inv_def)
  then show ?thesis
    using inv NoKey res by (auto simp: dedup_step_def dedup_inv_def)
qed

lemma dedup_loop_inv:
  "dedup_inv seen st \<Longrightarrow> dedup_loop st rs = Inr st' \<Longrightarrow> dedup_inv (seen @ rs) st'"
proof (induction rs arbitrary: seen st)
  case Nil
  then show ?case by simp
next
  case (Cons r rs)
  from Cons.prems(2) obtain st1 where st1: "dedup_step st r = Inr st1" "dedup_loop st1 rs = Inr st'"
    by (auto split: sum.splits)
  from Cons.IH[OF dedup_step_inv[OF Cons.prems(1) st1(1)] st1(2)] show ?case by simp
qed

lemma dedup_loop_returns:
  assumes "dedup_inv seen st"
    and "\<forall>x \<in> set seen. source x \<in> set SOURCE_PRIORITY"
    and "\<forall>x \<in> set rs. source x \<in> set SOURCE_PRIORITY"
  shows "\<exists>st'. dedup_loop st rs = Inr st'"
  using assms
proof (induction rs arbitrary: seen st)
  case Nil
  then show ?case by simp
next
  case (Cons r rs)
  from dedup_step_returns[OF Cons.prems(1) _ Cons.prems(2), of r] Cons.prems(3)
  obtain st1 where st1: "dedup_step st r = Inr st1" by auto
  have "\<exists>st'. dedup_loop st1 rs = Inr st'"
    using Cons.prems by (intro Cons.IH[OF dedup_step_inv[OF Cons.prems(1) st1]]) auto
  then show ?case using st1 by simp
qed

lemma dedup_loop_append:
  "dedup_loop st (xs @ ys) =
     (case dedup_loop st xs of Inl e \<Rightarrow> Inl e | Inr st' \<Rightarrow> dedup_loop st' ys)"
  by (induction xs arbitrary: st) (auto split: sum.splits)

lemma dedup_loop_nokey:
  "\<forall>r \<in> set xs. identity_key r = NoKey \<Longrightarrow> dedup_loop st xs = Inr (st\<lparr>kept := kept st @ xs\<rparr>)"
  by (induction xs arbitrary: st) (auto simp: dedup_step_def)

lemma merge_into_fresh: "k \<notin> fst ` set d \<Longrightarrow> merge_into d k r = Inr (d @ [(k, r)])"
  by (simp add: merge_into_def update_fresh map_of_eq_None_iff[THEN iffD2])

lemma dedup_loop_doi_fresh:
  assumes "distinct (map fst al)" "\<forall>p \<in> set al. identity_key (snd p) = DoiKey (fst p)"
    "fst ` set al \<inter> fst ` set (by_doi st) = {}"
  shows "dedup_loop st (map snd al) = Inr (st\<lparr>by_doi := by_doi st @ al\<rparr>)"
  using assms
proof (induction al arbitrary: st)
  case Nil
  then show ?case by simp
next
  case (Cons p al)
  obtain k v where p: "p = (k, v)" by (cases p)
  have key: "identity_key v = DoiKey k" using Cons.prems(2) p by simp
  have fresh: "k \<notin> fst ` set (by_doi st)" using Cons.prems(3) p by auto
  let ?st = "st\<lparr>by_doi := by_doi st @ [(k, v)]\<rparr>"
  have step: "dedup_step st v = Inr ?st"
    by (simp add: dedup_step_def key merge_into_fresh[OF fresh])
  have "dedup_loop ?st (map snd al) = Inr (?st\<lparr>by_doi := by_doi ?st @ al\<rparr>)"
    using Cons.prems p by (intro Cons.IH) auto
  then show ?case using step p by simp
qed

lemma dedup_loop_title_fresh:
  assumes "distinct (map fst al)" "\<forall>p \<in> set al. identity_key (snd p) = TitleKey (fst p)"
    "fst ` set al \<inter> fst ` set (by_title st) = {}"
  shows "dedup_loop st (map snd al) = Inr (st\<lparr>by_title := by_title st @ al\<rparr>)"
  using assms
proof (induction al arbitrary: st)
  case Nil
  then show ?case by simp
next
  case (Cons p al)
  obtain k v where p: "p = (k, v)" by (cases p)
  have key: "identity_key v = TitleKey k" using Cons.prems(2) p by simp
  have fresh: "k \<notin> fst ` set (by_title st)" using Cons.prems(3) p by auto
  let ?st = "st\<lparr>by_title := by_title st @ [(k, v)]\<rparr>"
  have step: "dedup_step st v = Inr ?st"
    by (simp add: dedup_step_def key merge_into_fresh[OF fresh])
  have "dedup_loop ?st (map snd al) = Inr (?st\<lparr>by_title := by_title ?st @ al\<rparr>)"
    using Cons.prems p by (intro Cons.IH) auto
  then show ?case using step p by simp
qed

lemma filter_key_keyed:
  assumes "keyed_by K seen d" "inj K"
  shows "filter (\<lambda>x. identity_key x = K k) (map snd d) = map snd (filter (\<lambda>p. fst p = k) d)"
proof -
  have "\<forall>p \<in> set d. (identity_key (snd p) = K k) = (fst p = k)"
    using assms unfolding keyed_by_def by (auto dest: injD)
  then show ?thesis by (simp add: filter_map comp_def cong: filter_cong)
qed

lemma filter_fst_distinct:
  "distinct (map fst d) \<Longrightarrow>
     length (filter (\<lambda>p. fst p = k) d) = (if k \<in> fst ` set d then 1 else 0)"
proof (induction d)
  case Nil
  then show ?case by simp
next
  case (Cons p d)
  then show ?case by (force simp: filter_empty_conv)
qed

lemma filter_other_keyed:
  assumes "keyed_by K seen d" "\<forall>k'. K k' \<noteq> j"
  shows "filter (\<lambda>x. identity_key x = j) (map snd d) = []"
  using assms unfolding keyed_by_def by (force simp: filter_empty_conv)

lemma deduplicate_state:
  assumes "deduplicate rs = Inr out"
  shows "\<exists>st. dedup_inv rs st \<and> out = kept st @ map snd (by_doi st) @ map snd (by_title st)"
proof -
  from assms obtain st where st: "dedup_loop \<lparr>by_doi = [], by_title = [], kept = []\<rparr> rs = Inr st"
    "out = kept st @ map snd (by_doi st) @ map snd (by_title st)"
    by (auto simp: deduplicate_def split: sum.splits)
  from dedup_loop_inv[OF dedup_inv_init st(1)] st(2) show ?thesis by auto
qed

lemma out_facts:
  assumes inv: "dedup_inv rs st"
  defines "out \<equiv> kept st @ map snd (by_doi st) @ map snd (by_title st)"
  shows "length out \<le> length rs"
    and "set out \<subseteq> set rs"
    and "filter (\<lambda>r. identity_key r = NoKey) out = filter (\<lambda>r. identity_key r = NoKey) rs"
    and "\<forall>r \<in> set rs. identity_key r \<noteq> NoKey \<longrightarrow>
           length (filter (\<lambda>x. identity_key x = identity_key r) out) = 1"
proof -
  have kd: "keyed_by DoiKey rs (by_doi st)" and kt: "keyed_by TitleKey rs (by_title st)"
    and kp: "kept st = filter (\<lambda>r. identity_key r = NoKey) rs"
    and len: "length (kept st) + length (by_doi st) + length (by_title st) \<le> length rs"
    using inv unfolding dedup_inv_def by auto
  show "length out \<le> length rs" using len by (simp add: out_def)
  show "set out \<subseteq> set rs"
    using kd kt kp unfolding keyed_by_def out_def by auto
  show "filter (\<lambda>r. identity_key r = NoKey) out = filter (\<lambda>r. identity_key r = NoKey) rs"
    using filter_other_keyed[OF kd, of NoKey] filter_other_keyed[OF kt, of NoKey]
    by (simp add: out_def kp)
  show "\<forall>r \<in> set rs. identity_key r \<noteq> NoKey \<longrightarrow>
           length (filter (\<lambda>x. identity_key x = identity_key r) out) = 1"
  proof (intro ballI impI)
    fix r assume r: "r \<in> set rs" "identity_key r \<noteq> NoKey"
    have injs: "inj DoiKey" "inj TitleKey" by (simp_all add: inj_on_def)
    show "length (filter (\<lambda>x. identity_key x = identity_key r) out) = 1"
    proof (cases "identity_key r")
      case (DoiKey k)
      have "k \<in> fst ` set (by_doi st)" using kd r(1) DoiKey unfolding keyed_by_def by auto
      moreover have "distinct (map fst (by_doi st))" using kd unfolding keyed_by_def by simp
      ultimately have "length (filter (\<lambda>p. fst p = k) (by_doi st)) = 1"
        by (simp add: filter_fst_distinct)
      then show ?thesis
        using filter_key_keyed[OF kd injs(1), of k] filter_other_keyed[OF kt, of "DoiKey k"]
        by (simp add: out_def kp DoiKey)
    next
      case (TitleKey k)
      have "k \<in> fst ` set (by_title st)" using kt r(1) TitleKey unfolding keyed_by_def by auto
      moreover have "distinct (map fst (by_title st))" using kt unfolding keyed_by_def by simp
      ultimately have "length (filter (\<lambda>p. fst p = k) (by_title st)) = 1"
        by (simp add: filter_fst_distinct)
      then show ?thesis
        using filter_key_keyed[OF kt injs(2), of k] filter_other_keyed[OF kd, of "TitleKey k"]
        by (simp add: out_def kp TitleKey)
    next
      case NoKey
      with r show ?thesis by simp
    qed
  qed
qed

text \<open>
  C7 (merge totality). On records whose sources are among the seven known ones
  \<open>deduplicate\<close> returns a list. Whenever it returns one, the list is no longer than the
  input and made of input records only; the records without an identity key come out
  unchanged and in order, and for every keyed input record exactly one output record
  carries its identity key.
\<close>

theorem deduplicate_total:
  "((\<forall>r \<in> set records. source r \<in> set SOURCE_PRIORITY) \<longrightarrow>
      (\<exists>res. deduplicate records = Inr res)) \<and>
   (deduplicate records = Inr out \<longrightarrow>
      length out \<le> length records \<and>
      set out \<subseteq> set records \<and>
      filter (\<lambda>r. identity_key r = NoKey) out = filter (\<lambda>r. identity_key r = NoKey) records \<and>
      (\<forall>r \<in> set records. identity_key r \<noteq> NoKey \<longrightarrow>
         length (filter (\<lambda>x. identity_key x = identity_key r) out) = 1))"
proof (intro conjI impI)
  assume "\<forall>r \<in> set records. source r \<in> set SOURCE_PRIORITY"
  from dedup_loop_returns[OF dedup_inv_init _ this] obtain st
    where "dedup_loop \<lparr>by_doi = [], by_title = [], kept = []\<rparr> records = Inr st" by auto
  then show "\<exists>res. deduplicate records = Inr res"
    by (simp add: deduplicate_def)
next
  assume "deduplicate records = Inr out"
  from deduplicate_state[OF this] obtain st where inv: "dedup_inv records st"
    and out: "out = kept st @ map snd (by_doi st) @ map snd (by_title st)" by blast
  show "length out \<le> length records" "set out \<subseteq> set records"
    "filter (\<lambda>r. identity_key r = NoKey) out = filter (\<lambda>r. identity_key r = NoKey) records"
    "\<forall>r \<in> set records. identity_key r \<noteq> NoKey \<longrightarrow>
         length (filter (\<lambda>x. identity_key x = identity_key r) out) = 1"
    unfolding out using out_facts[OF inv] by blast+
qed

theorem deduplicate_total_witness:
  "deduplicate [ex_scopus, ex_s2, ex_arxiv, ex_bare] = Inr [ex_bare, ex_s2, ex_arxiv] \<and>
   length (filter (\<lambda>x. identity_key x = identity_key ex_scopus) [ex_bare, ex_s2, ex_arxiv]) = 1 \<and>
   filter (\<lambda>r. identity_key r = NoKey) [ex_bare, ex_s2, ex_arxiv] = [ex_bare]"
proof -
  let ?rs = "[ex_scopus, ex_s2, ex_arxiv, ex_bare]"
  let ?out = "[ex_bare, ex_s2, ex_arxiv]"
  have src: "\<forall>r \<in> set ?rs. source r \<in> set SOURCE_PRIORITY"
    by (simp add: ex_scopus_def ex_s2_def ex_arxiv_def ex_bare_def empty_record_def
        SOURCE_PRIORITY_def)
  have nokey: "filter (\<lambda>r. identity_key r = NoKey) ?rs = [ex_bare]"
    by code_simp
  have keyed: "identity_key ex_scopus \<noteq> NoKey"
    by code_simp
  have run: "deduplicate ?rs = Inr ?out"
    by code_simp
  from deduplicate_total[of ?rs ?out] src run
  have o: "filter (\<lambda>r. identity_key r = NoKey) ?out = filter (\<lambda>r. identity_key r = NoKey) ?rs"
    "\<forall>r \<in> set ?rs. identity_key r \<noteq> NoKey \<longrightarrow>
        length (filter (\<lambda>x. identity_key x = identity_key r) ?out) = 1"
    by blast+
  have "ex_scopus \<in> set ?rs" by simp
  from bspec[OF o(2) this] keyed
  have one: "length (filter (\<lambda>x. identity_key x = identity_key ex_scopus) ?out) = 1"
    by blast
  show ?thesis
    using run one o(1) unfolding nokey by blast
qed

text \<open>
  C8 (merge idempotence). Whenever \<open>deduplicate\<close> returns a list, running it again on
  that list returns the same list.
\<close>

theorem deduplicate_idempotent:
  assumes "deduplicate records = Inr out"
  shows "deduplicate out = Inr out"
proof -
  from deduplicate_state[OF assms] obtain st where inv: "dedup_inv records st"
    and out: "out = kept st @ map snd (by_doi st) @ map snd (by_title st)" by blast
  have kd: "keyed_by DoiKey records (by_doi st)" and kt: "keyed_by TitleKey records (by_title st)"
    and kp: "kept st = filter (\<lambda>r. identity_key r = NoKey) records"
    using inv unfolding dedup_inv_def by auto
  let ?s0 = "\<lparr>by_doi = [], by_title = [], kept = []\<rparr>"
  let ?s1 = "\<lparr>by_doi = [], by_title = [], kept = kept st\<rparr>"
  let ?s2 = "\<lparr>by_doi = by_doi st, by_title = [], kept = kept st\<rparr>"
  let ?s3 = "\<lparr>by_doi = by_doi st, by_title = by_title st, kept = kept st\<rparr>"
  have 1: "dedup_loop ?s0 (kept st) = Inr ?s1"
    using dedup_loop_nokey[of "kept st" ?s0] kp by simp
  have 2: "dedup_loop ?s1 (map snd (by_doi st)) = Inr ?s2"
    using dedup_loop_doi_fresh[of "by_doi st" ?s1] kd unfolding keyed_by_def by simp
  have 3: "dedup_loop ?s2 (map snd (by_title st)) = Inr ?s3"
    using dedup_loop_title_fresh[of "by_title st" ?s2] kt unfolding keyed_by_def by simp
  have "dedup_loop ?s0 out = Inr ?s3"
    unfolding out by (simp add: dedup_loop_append 1 2 3)
  then show ?thesis by (simp add: deduplicate_def out)
qed

theorem deduplicate_idempotent_witness:
  "deduplicate [ex_scopus, ex_s2, ex_arxiv, ex_bare] = Inr [ex_bare, ex_s2, ex_arxiv] \<and>
   deduplicate [ex_bare, ex_s2, ex_arxiv] = Inr [ex_bare, ex_s2, ex_arxiv]"
proof -
  have run: "deduplicate [ex_scopus, ex_s2, ex_arxiv, ex_bare] = Inr [ex_bare, ex_s2, ex_arxiv]"
    by code_simp
  from deduplicate_idempotent[OF run] run show ?thesis by simp
qed

text \<open>
  C6 (DOI precedence). When exactly one of two records has a non-empty DOI,
  \<open>better_record\<close> returns that one, whatever their titles and sources are (and whether or
  not their identity keys agree).
\<close>

theorem better_record_doi_precedence:
  "(doi a \<noteq> [] \<and> doi b = [] \<longrightarrow> better_record a b = Inr a) \<and>
   (doi a = [] \<and> doi b \<noteq> [] \<longrightarrow> better_record a b = Inr b)"
  by (simp add: better_record_def)

theorem better_record_doi_precedence_witness:
  "doi ex_arxiv = [] \<and> doi ex_scopus \<noteq> [] \<and> length (title ex_scopus) < length (title ex_arxiv) \<and>
   better_record ex_arxiv ex_scopus = Inr ex_scopus \<and> better_record ex_scopus ex_arxiv = Inr ex_scopus"
  using better_record_doi_precedence[of ex_arxiv ex_scopus]
    better_record_doi_precedence[of ex_scopus ex_arxiv]
  by (simp add: ex_arxiv_def ex_scopus_def empty_record_def)

text \<open>
  C1 (source priority). Two records with the same identity key, both with a DOI and with
  titles of equal length: the first comes from Semantic Scholar (fourth in the priority
  list), the second from Web of Science (first in it). \<open>better_record\<close> returns the
  first.
\<close>

theorem better_record_ignores_priority:
  "identity_key ex_s2 = identity_key ex_wos \<and>
   length (title ex_s2) = length (title ex_wos) \<and>
   index_of SOURCE_PRIORITY (source ex_wos) = Inr 0 \<and>
   index_of SOURCE_PRIORITY (source ex_s2) = Inr 3 \<and>
   ex_s2 \<noteq> ex_wos \<and>
   better_record ex_s2 ex_wos = Inr ex_s2"
  by code_simp


section \<open>Properties of the title-level screen\<close>

lemma filter_step_eq:
  "filter_step cfg acc r =
     (if spec_screened_in cfg r then (fst acc @ [mark_in cfg r], snd acc)
      else (fst acc, snd acc @ [mark_out cfg r]))"
  by (simp add: filter_step_def spec_screened_in_def spec_reason_def spec_reason_codes_def
      mark_in_def mark_out_def has_mv_def has_wean_def has_rl_def Let_def)

lemma foldl_filter_step:
  "foldl (filter_step cfg) (a, b) rs =
     (a @ map (mark_in cfg) (filter (spec_screened_in cfg) rs),
      b @ map (mark_out cfg) (filter (\<lambda>r. \<not> spec_screened_in cfg r) rs))"
  by (induction rs arbitrary: a b) (simp_all add: filter_step_eq)

lemma text_blob_marked: "text_blob (mark_in cfg r) = text_blob r" "text_blob (mark_out cfg r) = text_blob r"
  by (simp_all add: text_blob_def mark_in_def mark_out_def)

lemma screened_in_marked:
  "spec_screened_in cfg (mark_in cfg r) = spec_screened_in cfg r"
  "spec_screened_in cfg (mark_out cfg r) = spec_screened_in cfg r"
  by (simp_all add: spec_screened_in_def has_mv_def has_wean_def has_rl_def text_blob_marked)

lemma reason_codes_nonempty: "\<not> spec_screened_in cfg r \<Longrightarrow> spec_reason_codes cfg r \<noteq> []"
  by (auto simp: spec_screened_in_def spec_reason_codes_def)

text \<open>
  C2 (stage-1 decision rule and totality). \<open>apply_filters\<close> puts a record, marked with its
  three match flags, into the first list exactly when its evidence blob matches an MV term
  and a weaning term and (an RL term or strict mode is off); every other record goes to
  the second list with its reason codes in the order no_mv, no_weaning, no_rl (no_match if
  there were none, which never happens for a rejected record). No record is in both lists
  and the two lengths add up to the number of input records.
\<close>

theorem apply_filters_partition:
  "apply_filters cfg records =
     (map (mark_in cfg) (filter (spec_screened_in cfg) records),
      map (mark_out cfg) (filter (\<lambda>r. \<not> spec_screened_in cfg r) records)) \<and>
   set (fst (apply_filters cfg records)) \<inter> set (snd (apply_filters cfg records)) = {} \<and>
   length (fst (apply_filters cfg records)) + length (snd (apply_filters cfg records)) = length records \<and>
   (\<forall>r. \<not> spec_screened_in cfg r \<longrightarrow> spec_reason_codes cfg r \<noteq> [])"
proof -
  let ?ins = "map (mark_in cfg) (filter (spec_screened_in cfg) records)"
  let ?outs = "map (mark_out cfg) (filter (\<lambda>r. \<not> spec_screened_in cfg r) records)"
  have eq: "apply_filters cfg records = (?ins, ?outs)"
    by (simp add: apply_filters_def foldl_filter_step)
  have "\<forall>x \<in> set ?ins. spec_screened_in cfg x" "\<forall>x \<in> set ?outs. \<not> spec_screened_in cfg x"
    by (auto simp: screened_in_marked)
  then have disj: "set ?ins \<inter> set ?outs = {}" by blast
  have len: "length ?ins + length ?outs = length records"
    by (simp add: sum_length_filter_compl)
  show ?thesis using disj len reason_codes_nonempty by (simp add: eq)
qed

lemma flags_strict:
  "has_mv cfg_strict r = has_mv cfg_default r"
  "has_wean cfg_strict r = has_wean cfg_default r"
  "has_rl cfg_strict r = has_rl cfg_default r"
  by (simp_all add: has_mv_def has_wean_def has_rl_def MV_RX_def WEAN_RX_def RL_RX_def
      compile_terms_def cfg_strict_def cfg_default_def)

lemma strict_flag: "STRICT_REQUIRE_RL cfg_strict" "\<not> STRICT_REQUIRE_RL cfg_default"
  by (simp_all add: cfg_strict_def cfg_default_def)

lemma flags_title_hit:
  "has_mv cfg_default ex_title_hit" "has_wean cfg_default ex_title_hit"
  "\<not> has_rl cfg_default ex_title_hit"
  by code_simp+

lemma flags_off_topic:
  "\<not> has_mv cfg_default ex_off_topic" "\<not> has_wean cfg_default ex_off_topic"
  "\<not> has_rl cfg_default ex_off_topic"
  by code_simp+

theorem apply_filters_partition_witness:
  "apply_filters cfg_strict [ex_title_hit, ex_off_topic] =
     ([],
      [ex_title_hit\<lparr>auto_exclude_reason := Some ''no_rl''\<rparr>,
       ex_off_topic\<lparr>auto_exclude_reason := Some ''no_mv,no_weaning,no_rl''\<rparr>]) \<and>
   apply_filters cfg_default [ex_title_hit, ex_off_topic] =
     ([ex_title_hit\<lparr>match_mv := Some True, match_weaning := Some True, match_rl := Some False\<rparr>],
      [ex_off_topic\<lparr>auto_exclude_reason := Some ''no_mv,no_weaning''\<rparr>])"
  using apply_filters_partition[of cfg_strict "[ex_title_hit, ex_off_topic]"]
    apply_filters_partition[of cfg_default "[ex_title_hit, ex_off_topic]"]
  by (simp add: spec_screened_in_def spec_reason_def spec_reason_codes_def mark_in_def
      mark_out_def flags_strict strict_flag flags_title_hit flags_off_topic)


section \<open>Properties of the abstract-level screen\<close>

text \<open>
  The two indexed reads of the provider chain stay in range: \<open>split(...)[1]\<close> is taken
  only from an id that starts with the separator, and \<open>split(...)[-1]\<close> from a list that
  is never empty.
\<close>

lemma split_acc_nonempty: "split_acc sep cur s \<noteq> []"
  by (induction sep cur s rule: split_acc.induct) auto

lemma split_nonempty: "split s sep \<noteq> []"
  by (simp add: split_def split_acc_nonempty)

lemma split_after_prefix:
  assumes "startswith s sep" "sep \<noteq> []"
  shows "1 < length (split s sep)"
proof (cases s)
  case Nil
  with assms show ?thesis by (simp add: startswith_def)
next
  case (Cons c cs)
  with assms(1) have "split s sep = [] # split_acc sep [] (drop (length sep - 1) cs)"
    by (simp add: split_def)
  then show ?thesis
    using split_acc_nonempty[of sep "[]" "drop (length sep - 1) cs"]
    by (cases "split_acc sep [] (drop (length sep - 1) cs)") auto
qed

lemma abs_matches_any_empty: "abs_matches_any rxs [] = False"
  by (simp add: abs_matches_any_def)

lemma stage2_row_eq:
  "stage2_row pv r =
     r\<lparr>abstract := Some (abs_clean_of pv r),
       match_mv_abs := Some (abs_matches_any ABS_MV_RX (abs_clean_of pv r)),
       match_wean_abs := Some (abs_matches_any ABS_WEAN_RX (abs_clean_of pv r)),
       match_rl_abs := Some (abs_matches_any ABS_RL_RX (abs_clean_of pv r)),
       decision := Some (spec_stage2_decision (abs_clean_of pv r))\<rparr>"
  by (simp add: stage2_row_def abstract_step_def spec_stage2_decision_def Let_def
      abs_matches_any_empty)

lemma abstract_step_eq:
  "abstract_step pv st r =
     (if decision (stage2_row pv r) = Some ''drop_by_abstract''
      then st\<lparr>checked := checked st + 1, dropped := dropped st @ [stage2_row pv r],
              dropped_cnt := dropped_cnt st + 1\<rparr>
      else st\<lparr>checked := checked st + 1, keepers := keepers st @ [stage2_row pv r],
              kept_cnt := kept_cnt st + 1,
              noabs := noabs st + (if abs_clean_of pv r = [] then 1 else 0)\<rparr>)"
  by (simp add: stage2_row_eq spec_stage2_decision_def abstract_step_def Let_def
      abs_matches_any_empty)

lemma no_abstract_not_dropped:
  "abs_clean_of pv r = [] \<Longrightarrow> decision (stage2_row pv r) \<noteq> Some ''drop_by_abstract''"
  by (simp add: stage2_row_eq spec_stage2_decision_def)

lemma foldl_abstract_step:
  "foldl (abstract_step pv) st rows =
     st\<lparr>checked := checked st + int (length rows),
        keepers := keepers st @
          filter (\<lambda>x. decision x \<noteq> Some ''drop_by_abstract'') (map (stage2_row pv) rows),
        kept_cnt := kept_cnt st + int (length
          (filter (\<lambda>x. decision x \<noteq> Some ''drop_by_abstract'') (map (stage2_row pv) rows))),
        dropped := dropped st @
          filter (\<lambda>x. decision x = Some ''drop_by_abstract'') (map (stage2_row pv) rows),
        dropped_cnt := dropped_cnt st + int (length
          (filter (\<lambda>x. decision x = Some ''drop_by_abstract'') (map (stage2_row pv) rows))),
        noabs := noabs st + int (length (filter (\<lambda>r. abs_clean_of pv r = []) rows))\<rparr>"
proof (induction rows arbitrary: st)
  case Nil
  then show ?case by simp
next
  case (Cons r rows)
  show ?case
    by (simp add: Cons.IH) (simp add: abstract_step_eq add.assoc no_abstract_not_dropped)
qed

lemma abstract_stage_lists:
  "fst (abstract_stage pv rows) =
     filter (\<lambda>x. decision x \<noteq> Some ''drop_by_abstract'') (map (stage2_row pv) rows)"
  "fst (snd (abstract_stage pv rows)) =
     filter (\<lambda>x. decision x = Some ''drop_by_abstract'') (map (stage2_row pv) rows)"
  "snd (snd (abstract_stage pv rows)) =
     [(''checked'', int (length rows)),
      (''kept'', int (length (fst (abstract_stage pv rows)))),
      (''dropped_by_abstract'', int (length (fst (snd (abstract_stage pv rows))))),
      (''no_abstract'', int (length (filter (\<lambda>r. abs_clean_of pv r = []) rows)))]"
  by (simp_all add: abstract_stage_def foldl_abstract_step Let_def)

lemma ex_abstracts:
  "abs_clean_of ex_providers ex_bare = []"
  "abs_clean_of ex_providers ex_title_hit = ''ventilator Q-learning''"
  "abs_clean_of ex_providers ex_off_topic = ''ventilator weaning''"
  by code_simp+

lemma ex_abs_flags_rl:
  "abs_matches_any ABS_MV_RX ''ventilator Q-learning''"
  "\<not> abs_matches_any ABS_WEAN_RX ''ventilator Q-learning''"
  "abs_matches_any ABS_RL_RX ''ventilator Q-learning''"
  by code_simp+

lemma ex_abs_flags_wean:
  "abs_matches_any ABS_MV_RX ''ventilator weaning''"
  "abs_matches_any ABS_WEAN_RX ''ventilator weaning''"
  "\<not> abs_matches_any ABS_RL_RX ''ventilator weaning''"
  by code_simp+

text \<open>
  C3 (fail-open abstract policy). A row whose cleaned abstract is empty is emitted with
  decision keep_no_abstract, an empty abstract and all three abstract flags false; it is
  among the keepers and not among the dropped rows, and every dropped row carries the
  decision drop_by_abstract and a non-empty abstract.
\<close>

theorem abstract_stage_fail_open:
  assumes "abs_clean_of pv r = []" and "r \<in> set screened_rows"
  shows "stage2_row pv r = r\<lparr>abstract := Some [], match_mv_abs := Some False,
             match_wean_abs := Some False, match_rl_abs := Some False,
             decision := Some ''keep_no_abstract''\<rparr> \<and>
         stage2_row pv r \<in> set (fst (abstract_stage pv screened_rows)) \<and>
         stage2_row pv r \<notin> set (fst (snd (abstract_stage pv screened_rows))) \<and>
         (\<forall>x \<in> set (fst (snd (abstract_stage pv screened_rows))).
            decision x = Some ''drop_by_abstract'' \<and> abstract x \<noteq> Some [])"
proof -
  have row: "stage2_row pv r = r\<lparr>abstract := Some [], match_mv_abs := Some False,
             match_wean_abs := Some False, match_rl_abs := Some False,
             decision := Some ''keep_no_abstract''\<rparr>"
    by (simp add: stage2_row_eq assms(1) abs_matches_any_empty spec_stage2_decision_def)
  have dec: "decision (stage2_row pv r) = Some ''keep_no_abstract''"
    by (simp add: row)
  have kept: "stage2_row pv r \<in> set (fst (abstract_stage pv screened_rows))"
    using assms(2) dec by (simp add: abstract_stage_lists(1))
  have notdropped: "stage2_row pv r \<notin> set (fst (snd (abstract_stage pv screened_rows)))"
    using dec by (simp add: abstract_stage_lists(2))
  have "decision x = Some ''drop_by_abstract'' \<and> abstract x \<noteq> Some []"
    if "x \<in> set (fst (snd (abstract_stage pv screened_rows)))" for x
  proof -
    from that obtain r' where x: "x = stage2_row pv r'" and d: "decision x = Some ''drop_by_abstract''"
      by (auto simp: abstract_stage_lists(2))
    from d x have "abs_clean_of pv r' \<noteq> []"
      using no_abstract_not_dropped by blast
    then have "abstract x \<noteq> Some []" by (simp add: x stage2_row_eq)
    with d show ?thesis by simp
  qed
  with row kept notdropped show ?thesis by blast
qed

theorem abstract_stage_fail_open_witness:
  "abs_clean_of ex_providers ex_bare = [] \<and>
   stage2_row ex_providers ex_bare = ex_bare\<lparr>abstract := Some [], match_mv_abs := Some False,
             match_wean_abs := Some False, match_rl_abs := Some False,
             decision := Some ''keep_no_abstract''\<rparr> \<and>
   stage2_row ex_providers ex_bare \<in> set (fst (abstract_stage ex_providers [ex_off_topic, ex_bare])) \<and>
   stage2_row ex_providers ex_bare \<notin> set (fst (snd (abstract_stage ex_providers [ex_off_topic, ex_bare])))"
  using abstract_stage_fail_open[OF ex_abstracts(1), of "[ex_off_topic, ex_bare]"] ex_abstracts(1)
  by auto

text \<open>
  C4 (stage-2 keep rule). A row whose cleaned abstract is not empty gets decision keep when
  the abstract matches an MV term and an RL term, and drop_by_abstract otherwise; it is
  then among the keepers, respectively among the dropped rows. The weaning match is
  stored in \<open>match_wean_abs\<close>; two rows with non-empty abstracts that agree on the MV and
  RL matches get the same decision, whatever their weaning matches are.
\<close>

theorem abstract_stage_keep_rule:
  assumes "abs_clean_of pv r \<noteq> []"
  shows "decision (stage2_row pv r) =
           Some (if abs_matches_any ABS_MV_RX (abs_clean_of pv r) \<and>
                    abs_matches_any ABS_RL_RX (abs_clean_of pv r)
                 then ''keep'' else ''drop_by_abstract'') \<and>
         match_wean_abs (stage2_row pv r) = Some (abs_matches_any ABS_WEAN_RX (abs_clean_of pv r)) \<and>
         abstract (stage2_row pv r) = Some (abs_clean_of pv r) \<and>
         (r \<in> set screened_rows \<longrightarrow>
            (stage2_row pv r \<in> set (fst (abstract_stage pv screened_rows))) =
              (abs_matches_any ABS_MV_RX (abs_clean_of pv r) \<and>
               abs_matches_any ABS_RL_RX (abs_clean_of pv r)) \<and>
            (stage2_row pv r \<in> set (fst (snd (abstract_stage pv screened_rows)))) =
              (\<not> (abs_matches_any ABS_MV_RX (abs_clean_of pv r) \<and>
                  abs_matches_any ABS_RL_RX (abs_clean_of pv r)))) \<and>
         (\<forall>pv' r'. abs_clean_of pv' r' \<noteq> [] \<and>
            abs_matches_any ABS_MV_RX (abs_clean_of pv' r') =
              abs_matches_any ABS_MV_RX (abs_clean_of pv r) \<and>
            abs_matches_any ABS_RL_RX (abs_clean_of pv' r') =
              abs_matches_any ABS_RL_RX (abs_clean_of pv r)
            \<longrightarrow> decision (stage2_row pv' r') = decision (stage2_row pv r))"
proof -
  let ?both = "abs_matches_any ABS_MV_RX (abs_clean_of pv r) \<and>
               abs_matches_any ABS_RL_RX (abs_clean_of pv r)"
  have dec: "decision (stage2_row pv r) = Some (if ?both then ''keep'' else ''drop_by_abstract'')"
    using assms by (simp add: stage2_row_eq spec_stage2_decision_def)
  have fields: "match_wean_abs (stage2_row pv r) = Some (abs_matches_any ABS_WEAN_RX (abs_clean_of pv r))"
    "abstract (stage2_row pv r) = Some (abs_clean_of pv r)"
    by (simp_all add: stage2_row_eq)
  have mem: "(stage2_row pv r \<in> set (fst (abstract_stage pv screened_rows))) = ?both"
    "(stage2_row pv r \<in> set (fst (snd (abstract_stage pv screened_rows)))) = (\<not> ?both)"
    if "r \<in> set screened_rows"
    using that dec by (auto simp: abstract_stage_lists)
  have same: "decision (stage2_row pv' r') = decision (stage2_row pv r)"
    if "abs_clean_of pv' r' \<noteq> []"
      "abs_matches_any ABS_MV_RX (abs_clean_of pv' r') = abs_matches_any ABS_MV_RX (abs_clean_of pv r)"
      "abs_matches_any ABS_RL_RX (abs_clean_of pv' r') = abs_matches_any ABS_RL_RX (abs_clean_of pv r)"
    for pv' r'
    using that assms by (simp add: stage2_row_eq spec_stage2_decision_def)
  show ?thesis using dec fields mem same by blast
qed

theorem abstract_stage_keep_rule_witness:
  "abs_clean_of ex_providers ex_title_hit = ''ventilator Q-learning'' \<and>
   decision (stage2_row ex_providers ex_title_hit) = Some ''keep'' \<and>
   match_wean_abs (stage2_row ex_providers ex_title_hit) = Some False \<and>
   abs_clean_of ex_providers ex_off_topic = ''ventilator weaning'' \<and>
   decision (stage2_row ex_providers ex_off_topic) = Some ''drop_by_abstract'' \<and>
   match_wean_abs (stage2_row ex_providers ex_off_topic) = Some True"
  using abstract_stage_keep_rule[of ex_providers ex_title_hit "[]"]
    abstract_stage_keep_rule[of ex_providers ex_off_topic "[]"]
  by (simp add: ex_abstracts ex_abs_flags_rl ex_abs_flags_wean)


section \<open>Properties of the rescue pass\<close>

lemma rescreen_matches_any_empty: "rescreen_matches_any rxs [] = False"
  by (simp add: rescreen_matches_any_def)

lemma rescreen_row_eq:
  "rescreen_row cfg pv r =
     r\<lparr>abstract := Some (abs_clean_of pv r),
       match_mv_abs := Some (rescue_mv cfg (abs_clean_of pv r)),
       match_wean_abs := Some (rescue_wean cfg (abs_clean_of pv r)),
       match_rl_abs := Some (rescue_rl cfg (abs_clean_of pv r)),
       decision := Some (spec_rescue_decision cfg (abs_clean_of pv r))\<rparr>"
  by (simp add: rescreen_row_def rescreen_step_def spec_rescue_decision_def rescue_mv_def
      rescue_wean_def rescue_rl_def Let_def split: prod.splits)

lemma out_rows_step:
  "out_rows (rescreen_step cfg pv st r) = out_rows st @ [rescreen_row cfg pv r]"
  by (simp add: rescreen_row_def rescreen_step_def Let_def split: prod.splits)

lemma out_rows_foldl:
  "out_rows (foldl (rescreen_step cfg pv) st rows) = out_rows st @ map (rescreen_row cfg pv) rows"
  by (induction rows arbitrary: st) (simp_all add: out_rows_step)

lemma rescued_step:
  "rescued (rescreen_step cfg pv st r) =
     rescued st + (if decision (rescreen_row cfg pv r) = Some ''rescue'' then 1 else 0)"
  by (simp add: rescreen_row_eq spec_rescue_decision_def)
     (simp add: rescreen_step_def rescue_mv_def rescue_wean_def rescue_rl_def Let_def
        split: prod.splits)

lemma rescued_foldl:
  "rescued (foldl (rescreen_step cfg pv) st rows) =
     rescued st + int (length (filter (\<lambda>x. decision x = Some ''rescue'')
                                 (map (rescreen_row cfg pv) rows)))"
  by (induction rows arbitrary: st) (simp_all add: rescued_step)

lemma rescue_flags_strict:
  "rescue_mv (cfg\<lparr>STRICT_REQUIRE_RL := s\<rparr>) a = rescue_mv cfg a"
  "rescue_wean (cfg\<lparr>STRICT_REQUIRE_RL := s\<rparr>) a = rescue_wean cfg a"
  "rescue_rl (cfg\<lparr>STRICT_REQUIRE_RL := s\<rparr>) a = rescue_rl cfg a"
  by (simp_all add: rescue_mv_def rescue_wean_def rescue_rl_def rescreen_compile_terms_def
      cong: if_cong)

lemma rescue_flags_default:
  "rescue_mv cfg_default a = abs_matches_any ABS_MV_RX a"
  "rescue_wean cfg_default a = abs_matches_any ABS_WEAN_RX a"
  "rescue_rl cfg_default a = abs_matches_any ABS_RL_RX a"
  by (simp_all add: rescue_mv_def rescue_wean_def rescue_rl_def rescreen_compile_terms_def
      rescreen_matches_any_def abs_matches_any_def ABS_MV_RX_def ABS_WEAN_RX_def ABS_RL_RX_def
      abs_compile_terms_def cfg_default_def cong: if_cong)

text \<open>
  C5 (rescue rule). The rescreen loop emits one row per input row, in order; its decision
  is keep_no_abstract when the cleaned abstract is empty, rescue when the abstract matches
  an MV term and a weaning term and (an RL term or strict mode is off), and
  confirmed_exclude otherwise. The saved keepers are exactly the rows with decision
  rescue or keep_no_abstract, and every saved row with decision rescue carries a
  non-empty abstract that satisfies the predicate.
\<close>

theorem rescreen_rule:
  "out_rows (rescreen_eval cfg pv rows) = map (rescreen_row cfg pv) rows \<and>
   decision (rescreen_row cfg pv r) =
     Some (if abs_clean_of pv r = [] then ''keep_no_abstract''
           else if rescue_mv cfg (abs_clean_of pv r) \<and> rescue_wean cfg (abs_clean_of pv r) \<and>
                   (rescue_rl cfg (abs_clean_of pv r) \<or> \<not> STRICT_REQUIRE_RL cfg)
           then ''rescue'' else ''confirmed_exclude'') \<and>
   rescreen_keepers cfg pv rows =
     filter (\<lambda>x. decision x = Some ''rescue'' \<or> decision x = Some ''keep_no_abstract'')
       (map (rescreen_row cfg pv) rows) \<and>
   (\<forall>x \<in> set (rescreen_keepers cfg pv rows). decision x = Some ''rescue'' \<longrightarrow>
      (\<exists>a. abstract x = Some a \<and> a \<noteq> [] \<and> rescue_mv cfg a \<and> rescue_wean cfg a \<and>
           (rescue_rl cfg a \<or> \<not> STRICT_REQUIRE_RL cfg)))"
proof -
  have rows: "out_rows (rescreen_eval cfg pv rows) = map (rescreen_row cfg pv) rows"
    by (simp add: rescreen_eval_def out_rows_foldl)
  have dec: "decision (rescreen_row cfg pv r') = Some (spec_rescue_decision cfg (abs_clean_of pv r'))"
    for r'
    by (simp add: rescreen_row_eq)
  have three: "decision (rescreen_row cfg pv r') = Some ''rescue'' \<or>
      decision (rescreen_row cfg pv r') = Some ''keep_no_abstract'' \<or>
      decision (rescreen_row cfg pv r') = Some ''confirmed_exclude''" for r'
    by (simp add: dec spec_rescue_decision_def)
  have "(decision (rescreen_row cfg pv r') \<noteq> Some ''confirmed_exclude'') =
      (decision (rescreen_row cfg pv r') = Some ''rescue'' \<or>
       decision (rescreen_row cfg pv r') = Some ''keep_no_abstract'')" for r'
    using three[of r'] by auto
  then have keep: "rescreen_keepers cfg pv rows =
     filter (\<lambda>x. decision x = Some ''rescue'' \<or> decision x = Some ''keep_no_abstract'')
       (map (rescreen_row cfg pv) rows)"
    by (simp add: rescreen_keepers_def rows filter_map comp_def)
  have pred: "\<exists>a. abstract x = Some a \<and> a \<noteq> [] \<and> rescue_mv cfg a \<and> rescue_wean cfg a \<and>
           (rescue_rl cfg a \<or> \<not> STRICT_REQUIRE_RL cfg)"
    if "x \<in> set (rescreen_keepers cfg pv rows)" "decision x = Some ''rescue''" for x
  proof -
    from that(1) obtain r' where x: "x = rescreen_row cfg pv r'"
      by (auto simp: keep)
    from that(2) have "spec_rescue_decision cfg (abs_clean_of pv r') = ''rescue''"
      by (simp add: x dec)
    then have "abs_clean_of pv r' \<noteq> [] \<and> rescue_mv cfg (abs_clean_of pv r') \<and>
        rescue_wean cfg (abs_clean_of pv r') \<and>
        (rescue_rl cfg (abs_clean_of pv r') \<or> \<not> STRICT_REQUIRE_RL cfg)"
      by (simp add: spec_rescue_decision_def split: if_splits)
    moreover have "abstract x = Some (abs_clean_of pv r')"
      by (simp add: x rescreen_row_eq)
    ultimately show ?thesis by blast
  qed
  show ?thesis
    using rows dec[of r] keep pred by (simp add: spec_rescue_decision_def)
qed

theorem rescreen_rule_witness:
  "rescreen_keepers cfg_default ex_providers [ex_title_hit, ex_off_topic, ex_bare] =
     [ex_off_topic\<lparr>abstract := Some ''ventilator weaning'', match_mv_abs := Some True,
        match_wean_abs := Some True, match_rl_abs := Some False, decision := Some ''rescue''\<rparr>,
      ex_bare\<lparr>abstract := Some [], match_mv_abs := Some False,
        match_wean_abs := Some False, match_rl_abs := Some False,
        decision := Some ''keep_no_abstract''\<rparr>] \<and>
   decision (rescreen_row cfg_default ex_providers ex_title_hit) = Some ''confirmed_exclude''"
  using rescreen_rule[of cfg_default ex_providers "[ex_title_hit, ex_off_topic, ex_bare]" ex_title_hit]
  by (simp add: rescreen_row_eq spec_rescue_decision_def rescue_flags_default ex_abstracts
      ex_abs_flags_rl ex_abs_flags_wean abs_matches_any_empty strict_flag)

text \<open>
  C9 (scope of the strict switch). As stated the claim fails: the rescreen script reads
  the switch too. With the switch off the row of \<open>ex_off_topic\<close> (abstract "ventilator
  weaning", no RL term) is rescued, with the switch on it is not.
\<close>

theorem strict_switch_changes_rescue:
  "decision (rescreen_row (cfg_default\<lparr>STRICT_REQUIRE_RL := False\<rparr>) ex_providers ex_off_topic)
     \<noteq> decision (rescreen_row (cfg_default\<lparr>STRICT_REQUIRE_RL := True\<rparr>) ex_providers ex_off_topic)"
  by (simp add: rescreen_row_eq spec_rescue_decision_def rescue_flags_strict rescue_flags_default
      ex_abstracts ex_abs_flags_wean)

text \<open>
  C9, amended. Stage 2 does not depend on the switch: a record that the title-level
  screen lets through under both settings is handed to stage 2 as the same row, so the
  stage-2 result is the same. The rescue decision is the same under both settings except
  for a non-empty abstract that matches an MV and a weaning term but no RL term: that row
  is rescued with the switch off and excluded with it on.
\<close>

theorem strict_switch_scope:
  "(\<forall>x1 x2. x1 \<in> set (fst (apply_filters (cfg\<lparr>STRICT_REQUIRE_RL := False\<rparr>) [r])) \<and>
            x2 \<in> set (fst (apply_filters (cfg\<lparr>STRICT_REQUIRE_RL := True\<rparr>) [r]))
      \<longrightarrow> x1 = x2 \<and> abstract_stage pv [x1] = abstract_stage pv [x2]) \<and>
   (if abs_clean_of pv r \<noteq> [] \<and> rescue_mv cfg (abs_clean_of pv r) \<and>
       rescue_wean cfg (abs_clean_of pv r) \<and> \<not> rescue_rl cfg (abs_clean_of pv r)
    then decision (rescreen_row (cfg\<lparr>STRICT_REQUIRE_RL := False\<rparr>) pv r) = Some ''rescue'' \<and>
         decision (rescreen_row (cfg\<lparr>STRICT_REQUIRE_RL := True\<rparr>) pv r) = Some ''confirmed_exclude''
    else decision (rescreen_row (cfg\<lparr>STRICT_REQUIRE_RL := False\<rparr>) pv r) =
         decision (rescreen_row (cfg\<lparr>STRICT_REQUIRE_RL := True\<rparr>) pv r))"
proof -
  have flags: "has_mv (cfg\<lparr>STRICT_REQUIRE_RL := s\<rparr>) r = has_mv cfg r"
    "has_wean (cfg\<lparr>STRICT_REQUIRE_RL := s\<rparr>) r = has_wean cfg r"
    "has_rl (cfg\<lparr>STRICT_REQUIRE_RL := s\<rparr>) r = has_rl cfg r" for s
    by (simp_all add: has_mv_def has_wean_def has_rl_def MV_RX_def WEAN_RX_def RL_RX_def
        compile_terms_def)
  have mark: "mark_in (cfg\<lparr>STRICT_REQUIRE_RL := s\<rparr>) r = mark_in cfg r" for s
    by (simp add: mark_in_def flags)
  have ins: "set (fst (apply_filters (cfg\<lparr>STRICT_REQUIRE_RL := s\<rparr>) [r])) \<subseteq> {mark_in cfg r}" for s
    by (simp add: apply_filters_def filter_step_eq mark)
  have stage2: "x1 = x2 \<and> abstract_stage pv [x1] = abstract_stage pv [x2]"
    if "x1 \<in> set (fst (apply_filters (cfg\<lparr>STRICT_REQUIRE_RL := False\<rparr>) [r]))"
       "x2 \<in> set (fst (apply_filters (cfg\<lparr>STRICT_REQUIRE_RL := True\<rparr>) [r]))" for x1 x2
    using that ins[of False] ins[of True] by auto
  have rescue: "decision (rescreen_row (cfg\<lparr>STRICT_REQUIRE_RL := s\<rparr>) pv r) =
      Some (if abs_clean_of pv r = [] then ''keep_no_abstract''
            else if rescue_mv cfg (abs_clean_of pv r) \<and> rescue_wean cfg (abs_clean_of pv r) \<and>
                    (rescue_rl cfg (abs_clean_of pv r) \<or> \<not> s)
            then ''rescue'' else ''confirmed_exclude'')" for s
    by (simp add: rescreen_row_eq spec_rescue_decision_def rescue_flags_strict)
  show ?thesis
    using stage2 by (auto simp: rescue)
qed

lemma flags_rl_title:
  "has_mv cfg_default ex_rl_title" "has_wean cfg_default ex_rl_title" "has_rl cfg_default ex_rl_title"
  by code_simp+

lemma ex_rl_title_abstract: "abs_clean_of ex_providers ex_rl_title = []"
  by code_simp

theorem strict_switch_scope_witness:
  "fst (apply_filters (cfg_default\<lparr>STRICT_REQUIRE_RL := False\<rparr>) [ex_rl_title]) =
     [ex_rl_title\<lparr>match_mv := Some True, match_weaning := Some True, match_rl := Some True\<rparr>] \<and>
   fst (apply_filters (cfg_default\<lparr>STRICT_REQUIRE_RL := True\<rparr>) [ex_rl_title]) =
     [ex_rl_title\<lparr>match_mv := Some True, match_weaning := Some True, match_rl := Some True\<rparr>] \<and>
   decision (rescreen_row (cfg_default\<lparr>STRICT_REQUIRE_RL := False\<rparr>) ex_providers ex_rl_title) =
     Some ''keep_no_abstract'' \<and>
   decision (rescreen_row (cfg_default\<lparr>STRICT_REQUIRE_RL := True\<rparr>) ex_providers ex_rl_title) =
     Some ''keep_no_abstract'' \<and>
   decision (rescreen_row (cfg_default\<lparr>STRICT_REQUIRE_RL := False\<rparr>) ex_providers ex_off_topic) =
     Some ''rescue'' \<and>
   decision (rescreen_row (cfg_default\<lparr>STRICT_REQUIRE_RL := True\<rparr>) ex_providers ex_off_topic) =
     Some ''confirmed_exclude''"
proof -
  have d: "cfg_default\<lparr>STRICT_REQUIRE_RL := False\<rparr> = cfg_default"
    "cfg_default\<lparr>STRICT_REQUIRE_RL := True\<rparr> = cfg_strict"
    by (simp_all add: cfg_default_def cfg_strict_def)
  have ins: "fst (apply_filters cfg_default [ex_rl_title]) =
       [ex_rl_title\<lparr>match_mv := Some True, match_weaning := Some True, match_rl := Some True\<rparr>]"
    "fst (apply_filters cfg_strict [ex_rl_title]) =
       [ex_rl_title\<lparr>match_mv := Some True, match_weaning := Some True, match_rl := Some True\<rparr>]"
    by (simp_all add: apply_filters_def filter_step_eq spec_screened_in_def mark_in_def
        flags_strict strict_flag flags_rl_title)
  have off: "decision (rescreen_row cfg_default ex_providers ex_rl_title) = Some ''keep_no_abstract''"
    by (simp add: rescreen_row_eq spec_rescue_decision_def ex_rl_title_abstract)
  from strict_switch_scope[of cfg_default ex_rl_title ex_providers]
    strict_switch_scope[of cfg_default ex_off_topic ex_providers] ins off
  show ?thesis
    by (simp add: d rescue_flags_default ex_abstracts ex_abs_flags_wean ex_rl_title_abstract)
qed


section \<open>Properties of the PRISMA counts\<close>

lemma filter_prisma_reads:
  "map_of (filter_prisma cfg pv all_records dedup screened_in screened_out) ''auto_screen_in'' =
     Some (JInt (int (length screened_in)))"
  "map_of (filter_prisma cfg pv all_records dedup screened_in screened_out) ''auto_screen_out'' =
     Some (JInt (int (length screened_out)))"
  "map_of (filter_prisma cfg pv all_records dedup screened_in screened_out)
       ''auto_screen_in_after_abstract'' =
     Some (JInt (int (length screened_in) - int (length (fst (snd (abstract_stage pv screened_in))))))"
proof -
  have empty: "fst (snd (abstract_stage pv [])) = []"
    by (simp add: abstract_stage_lists)
  show "map_of (filter_prisma cfg pv all_records dedup screened_in screened_out) ''auto_screen_in'' =
     Some (JInt (int (length screened_in)))"
    by (simp add: filter_prisma_def Let_def update_conv')
  show "map_of (filter_prisma cfg pv all_records dedup screened_in screened_out) ''auto_screen_out'' =
     Some (JInt (int (length screened_out)))"
    by (simp add: filter_prisma_def Let_def update_conv')
  show "map_of (filter_prisma cfg pv all_records dedup screened_in screened_out)
       ''auto_screen_in_after_abstract'' =
     Some (JInt (int (length screened_in) - int (length (fst (snd (abstract_stage pv screened_in))))))"
    by (cases "screened_in = []")
       (simp_all add: filter_prisma_def Let_def update_conv' abstract_stage_lists(3) dict_get_def
          empty)
qed

lemma rescreen_prisma_reads:
  assumes "py_int (dict_get prisma ''auto_screen_in'' (JInt 0)) = Inr old_in"
    and "py_int (dict_get prisma ''auto_screen_out'' (JInt 0)) = Inr old_out"
  shows "\<exists>p'. rescreen_prisma prisma st = Inr p' \<and>
     map_of p' ''auto_screen_in_after_abstract'' = Some (JInt (old_in + rescued st)) \<and>
     map_of p' ''auto_screen_out_after_abstract'' = Some (JInt (max 0 (old_out - rescued st))) \<and>
     map_of p' ''auto_screen_in'' = map_of prisma ''auto_screen_in'' \<and>
     map_of p' ''auto_screen_out'' = map_of prisma ''auto_screen_out''"
  by (simp add: rescreen_prisma_def assms Let_def update_conv')

text \<open>
  C10 (derived totals after the rescue pass). Whenever the rescreen script updates a count
  object, it stores \<open>auto_screen_in + rescued\<close> and \<open>max(0, auto_screen_out - rescued)\<close>,
  read from the stage-1 counts (0 when absent). After the filter script the object holds
  \<open>auto_screen_in_after_abstract = auto_screen_in - dropped_by_abstract\<close>; the rescreen
  script run on that object always succeeds and replaces the value by
  \<open>auto_screen_in + rescued\<close>, in which the number of stage-2 drops does not occur.
\<close>

theorem prisma_after_rescreen:
  "(rescreen_prisma prisma st = Inr p1 \<longrightarrow>
      (\<exists>old_in old_out.
         py_int (dict_get prisma ''auto_screen_in'' (JInt 0)) = Inr old_in \<and>
         py_int (dict_get prisma ''auto_screen_out'' (JInt 0)) = Inr old_out \<and>
         map_of p1 ''auto_screen_in_after_abstract'' = Some (JInt (old_in + rescued st)) \<and>
         map_of p1 ''auto_screen_out_after_abstract'' = Some (JInt (max 0 (old_out - rescued st))))) \<and>
   (filter_main cfg pv all_records = Inr (screened_in, screened_out, p) \<longrightarrow>
      map_of p ''auto_screen_in'' = Some (JInt (int (length screened_in))) \<and>
      map_of p ''auto_screen_in_after_abstract'' =
        Some (JInt (int (length screened_in) - int (length (fst (snd (abstract_stage pv screened_in)))))) \<and>
      (\<exists>p2. snd (rescreen_main cfg2 pv2 p rows) = Inr p2 \<and>
         map_of p2 ''auto_screen_in_after_abstract'' =
           Some (JInt (int (length screened_in) + rescued (rescreen_eval cfg2 pv2 rows))) \<and>
         map_of p2 ''auto_screen_out_after_abstract'' =
           Some (JInt (max 0 (int (length screened_out) - rescued (rescreen_eval cfg2 pv2 rows)))) \<and>
         rescued (rescreen_eval cfg2 pv2 rows) =
           int (length (filter (\<lambda>x. decision x = Some ''rescue'') (map (rescreen_row cfg2 pv2) rows)))))"
proof (intro conjI impI)
  assume res: "rescreen_prisma prisma st = Inr p1"
  then obtain old_in old_out where old:
    "py_int (dict_get prisma ''auto_screen_in'' (JInt 0)) = Inr old_in"
    "py_int (dict_get prisma ''auto_screen_out'' (JInt 0)) = Inr old_out"
    by (auto simp: rescreen_prisma_def Let_def split: sum.splits)
  from rescreen_prisma_reads[OF old, of st] res old
  show "\<exists>old_in old_out.
         py_int (dict_get prisma ''auto_screen_in'' (JInt 0)) = Inr old_in \<and>
         py_int (dict_get prisma ''auto_screen_out'' (JInt 0)) = Inr old_out \<and>
         map_of p1 ''auto_screen_in_after_abstract'' = Some (JInt (old_in + rescued st)) \<and>
         map_of p1 ''auto_screen_out_after_abstract'' = Some (JInt (max 0 (old_out - rescued st)))"
    by auto
next
  assume "filter_main cfg pv all_records = Inr (screened_in, screened_out, p)"
  then obtain dedup where p: "p = filter_prisma cfg pv all_records dedup screened_in screened_out"
    by (auto simp: filter_main_def Let_def split: sum.splits prod.splits)
  show "map_of p ''auto_screen_in'' = Some (JInt (int (length screened_in)))"
    by (simp add: p filter_prisma_reads)
  show "map_of p ''auto_screen_in_after_abstract'' =
        Some (JInt (int (length screened_in) - int (length (fst (snd (abstract_stage pv screened_in))))))"
    by (simp add: p filter_prisma_reads)
  have old: "py_int (dict_get p ''auto_screen_in'' (JInt 0)) = Inr (int (length screened_in))"
    "py_int (dict_get p ''auto_screen_out'' (JInt 0)) = Inr (int (length screened_out))"
    by (simp_all add: p dict_get_def filter_prisma_reads)
  have cnt: "rescued (rescreen_eval cfg2 pv2 rows) =
      int (length (filter (\<lambda>x. decision x = Some ''rescue'') (map (rescreen_row cfg2 pv2) rows)))"
    by (simp add: rescreen_eval_def rescued_foldl)
  from rescreen_prisma_reads[OF old, of "rescreen_eval cfg2 pv2 rows"] cnt
  show "\<exists>p2. snd (rescreen_main cfg2 pv2 p rows) = Inr p2 \<and>
         map_of p2 ''auto_screen_in_after_abstract'' =
           Some (JInt (int (length screened_in) + rescued (rescreen_eval cfg2 pv2 rows))) \<and>
         map_of p2 ''auto_screen_out_after_abstract'' =
           Some (JInt (max 0 (int (length screened_out) - rescued (rescreen_eval cfg2 pv2 rows)))) \<and>
         rescued (rescreen_eval cfg2 pv2 rows) =
           int (length (filter (\<lambda>x. decision x = Some ''rescue'') (map (rescreen_row cfg2 pv2) rows)))"
    by (auto simp: rescreen_main_def)
qed

lemma abs_clean_of_fields:
  "abs_clean_of pv (r\<lparr>match_mv := a, match_weaning := b, match_rl := c\<rparr>) = abs_clean_of pv r"
  "abs_clean_of pv (r\<lparr>auto_exclude_reason := d\<rparr>) = abs_clean_of pv r"
  by (simp_all add: abs_clean_of_def lookup_abstract_def)

lemma ex_abstracts_no_rl:
  "abs_clean_of ex_providers_no_rl ex_title_hit = ''ventilator weaning''"
  "abs_clean_of ex_providers_no_rl ex_off_topic = ''ventilator weaning''"
  by code_simp+

theorem prisma_after_rescreen_witness:
  "filter_main cfg_default ex_providers_no_rl [ex_title_hit, ex_off_topic] =
     Inr ([ex_title_hit\<lparr>match_mv := Some True, match_weaning := Some True, match_rl := Some False\<rparr>],
          [ex_off_topic\<lparr>auto_exclude_reason := Some ''no_mv,no_weaning''\<rparr>],
          filter_prisma cfg_default ex_providers_no_rl [ex_title_hit, ex_off_topic]
            [ex_title_hit, ex_off_topic]
            [ex_title_hit\<lparr>match_mv := Some True, match_weaning := Some True, match_rl := Some False\<rparr>]
            [ex_off_topic\<lparr>auto_exclude_reason := Some ''no_mv,no_weaning''\<rparr>]) \<and>
   map_of (filter_prisma cfg_default ex_providers_no_rl [ex_title_hit, ex_off_topic]
            [ex_title_hit, ex_off_topic]
            [ex_title_hit\<lparr>match_mv := Some True, match_weaning := Some True, match_rl := Some False\<rparr>]
            [ex_off_topic\<lparr>auto_exclude_reason := Some ''no_mv,no_weaning''\<rparr>])
     ''auto_screen_in_after_abstract'' = Some (JInt 0) \<and>
   (\<exists>p2. snd (rescreen_main cfg_default ex_providers_no_rl
             (filter_prisma cfg_default ex_providers_no_rl [ex_title_hit, ex_off_topic]
                [ex_title_hit, ex_off_topic]
                [ex_title_hit\<lparr>match_mv := Some True, match_weaning := Some True, match_rl := Some False\<rparr>]
                [ex_off_topic\<lparr>auto_exclude_reason := Some ''no_mv,no_weaning''\<rparr>])
             [ex_off_topic\<lparr>auto_exclude_reason := Some ''no_mv,no_weaning''\<rparr>]) = Inr p2 \<and>
      map_of p2 ''auto_screen_in_after_abstract'' = Some (JInt 2) \<and>
      map_of p2 ''auto_screen_out_after_abstract'' = Some (JInt 0))"
proof -
  let ?all = "[ex_title_hit, ex_off_topic]"
  let ?si = "[ex_title_hit\<lparr>match_mv := Some True, match_weaning := Some True, match_rl := Some False\<rparr>]"
  let ?so = "[ex_off_topic\<lparr>auto_exclude_reason := Some ''no_mv,no_weaning''\<rparr>]"
  let ?p = "filter_prisma cfg_default ex_providers_no_rl ?all ?all ?si ?so"
  have dd: "deduplicate ?all = Inr ?all"
    by code_simp
  have af: "apply_filters cfg_default ?all = (?si, ?so)"
    by (simp add: apply_filters_def filter_step_eq spec_screened_in_def spec_reason_def
        spec_reason_codes_def mark_in_def mark_out_def strict_flag flags_title_hit flags_off_topic)
  have fm: "filter_main cfg_default ex_providers_no_rl ?all = Inr (?si, ?so, ?p)"
    by (simp add: filter_main_def dd af)
  have drops: "length (fst (snd (abstract_stage ex_providers_no_rl ?si))) = 1"
    by (simp add: abstract_stage_lists(2) stage2_row_eq spec_stage2_decision_def
        abs_clean_of_fields ex_abstracts_no_rl ex_abs_flags_wean)
  have resc: "length (filter (\<lambda>x. decision x = Some ''rescue'')
                 (map (rescreen_row cfg_default ex_providers_no_rl) ?so)) = 1"
    by (simp add: rescreen_row_eq spec_rescue_decision_def rescue_flags_default
        abs_clean_of_fields ex_abstracts_no_rl ex_abs_flags_wean strict_flag)
  from prisma_after_rescreen[of "[]" "rescreen_eval cfg_default ex_providers_no_rl []" "[]"
      cfg_default ex_providers_no_rl ?all ?si ?so ?p cfg_default ex_providers_no_rl ?so] fm
  obtain p2 where p2: "map_of ?p ''auto_screen_in_after_abstract'' =
        Some (JInt (int (length ?si) - int (length (fst (snd (abstract_stage ex_providers_no_rl ?si))))))"
    "snd (rescreen_main cfg_default ex_providers_no_rl ?p ?so) = Inr p2"
    "map_of p2 ''auto_screen_in_after_abstract'' =
       Some (JInt (int (length ?si) + rescued (rescreen_eval cfg_default ex_providers_no_rl ?so)))"
    "map_of p2 ''auto_screen_out_after_abstract'' =
       Some (JInt (max 0 (int (length ?so) - rescued (rescreen_eval cfg_default ex_providers_no_rl ?so))))"
    "rescued (rescreen_eval cfg_default ex_providers_no_rl ?so) =
       int (length (filter (\<lambda>x. decision x = Some ''rescue'')
                 (map (rescreen_row cfg_default ex_providers_no_rl) ?so)))"
    by blast
  have "map_of ?p ''auto_screen_in_after_abstract'' = Some (JInt 0)"
    using p2(1) drops by simp
  moreover have "map_of p2 ''auto_screen_in_after_abstract'' = Some (JInt 2)"
    "map_of p2 ''auto_screen_out_after_abstract'' = Some (JInt 0)"
    using p2(3,4,5) resc by simp_all
  ultimately show ?thesis using fm p2(2) by blast
qed


end
